theory Spec2Isabelle
  imports Main
begin

section \<open>Data model\<close>

text \<open>
  A board is a Python list of rows, each a list of integers; \<open>0\<close> is the empty cell.
  Rows are held by value: \<open>measure_performance\<close> copies every row before it validates
  or solves, so rows are never shared between two positions of a board.
\<close>

type_synonym board = "int list list"

datatype error = IndexError | ZeroDivisionError | TypeError | OverflowError

text \<open>
  The fields of \<open>SudokuSolver\<close> that the search reads or writes. \<open>start_time\<close>,
  \<open>timeout\<close>, \<open>step_by_step\<close> and \<open>step_delay\<close> only feed the wall clock and the
  console. The wall clock is an oracle \<open>expired :: nat \<Rightarrow> bool\<close>: \<open>expired k\<close> is the
  value of \<open>time.time() - self.start_time > self.timeout\<close> at the \<open>k\<close>-th evaluation of
  that test, and \<open>clock_reads\<close> counts the evaluations made so far.
\<close>

record solver =
  size_n :: nat
  subgrid_size :: nat
  recursive_calls :: nat
  time_limit_exceeded :: bool
  clock_reads :: nat

subsection \<open>Construction\<close>

text \<open>
  \<open>int(size ** 0.5)\<close>. For a negative \<open>size\<close> Python's power is a complex number and
  \<open>int\<close> of it raises \<open>TypeError\<close>. For \<open>0 \<le> size < 2 ^ 52\<close> the size is a float
  exactly and the float power is close enough to the real root for its integer part to
  be the integer square root. From \<open>2 ^ 52\<close> on the rounding of the float power decides:
  the result can be one above the integer square root (at \<open>2 ^ 52 + 2 ^ 27\<close> it is
  \<open>67108865\<close>), and a size beyond the range of the floats raises \<open>OverflowError\<close>.
  That part is the parameter \<open>float_root\<close>: \<open>float_root n\<close> is the outcome of
  \<open>int(n ** 0.5)\<close> for \<open>n \<ge> 2 ^ 52\<close>.
\<close>

primrec sqrt_upto :: "nat \<Rightarrow> nat \<Rightarrow> nat" where
  "sqrt_upto n 0 = 0"
| "sqrt_upto n (Suc k) = (if Suc k * Suc k \<le> n then Suc k else sqrt_upto n k)"

definition int_sqrt :: "nat \<Rightarrow> nat" where
  "int_sqrt n = sqrt_upto n n"

definition init :: "(nat \<Rightarrow> error + nat) \<Rightarrow> int \<Rightarrow> error + solver" where
  "init float_root n =
     (if n < 0 then Inl TypeError
      else if n < 2 ^ 52
      then Inr \<lparr>size_n = nat n, subgrid_size = int_sqrt (nat n), recursive_calls = 0,
                time_limit_exceeded = False, clock_reads = 0\<rparr>
      else
        (case float_root (nat n) of
           Inl e \<Rightarrow> Inl e
         | Inr b \<Rightarrow> Inr \<lparr>size_n = nat n, subgrid_size = b, recursive_calls = 0,
                          time_limit_exceeded = False, clock_reads = 0\<rparr>))"

subsection \<open>Reading and writing a cell\<close>

text \<open>
  \<open>board[i][j]\<close> and \<open>board[i][j] = v\<close> for the indices a \<open>range\<close> produces (never
  negative); outside the lists Python raises \<open>IndexError\<close>.
\<close>

definition cell :: "board \<Rightarrow> nat \<Rightarrow> nat \<Rightarrow> error + int" where
  "cell board i j =
     (if i < length board \<and> j < length (board ! i) then Inr (board ! i ! j)
      else Inl IndexError)"

definition set_cell :: "board \<Rightarrow> nat \<Rightarrow> nat \<Rightarrow> int \<Rightarrow> error + board" where
  "set_cell board i j v =
     (if i < length board \<and> j < length (board ! i)
      then Inr (board[i := (board ! i)[j := v]])
      else Inl IndexError)"

text \<open>\<open>for i in range(n): for j in range(n)\<close>: the cells in row-major order.\<close>

definition all_cells :: "nat \<Rightarrow> (nat \<times> nat) list" where
  "all_cells n = List.product [0..<n] [0..<n]"

section \<open>The constraint checker\<close>

text \<open>
  One scanning loop of \<open>is_valid\<close>: it returns \<open>False\<close> at the first cell that holds
  \<open>num\<close> and passes the loop's inequality test, and falls through otherwise.
\<close>

fun scan :: "board \<Rightarrow> int \<Rightarrow> (nat \<times> nat \<Rightarrow> bool) \<Rightarrow> (nat \<times> nat) list \<Rightarrow> error + bool" where
  "scan board num other [] = Inr True"
| "scan board num other ((i, j) # rest) =
     (case cell board i j of
        Inl e \<Rightarrow> Inl e
      | Inr v \<Rightarrow> if v = num \<and> other (i, j) then Inr False else scan board num other rest)"

definition box_cells :: "solver \<Rightarrow> nat \<Rightarrow> nat \<Rightarrow> (nat \<times> nat) list" where
  "box_cells s row col =
     (let start_row = (row div subgrid_size s) * subgrid_size s;
          start_col = (col div subgrid_size s) * subgrid_size s
      in List.product [start_row..<start_row + subgrid_size s]
                      [start_col..<start_col + subgrid_size s])"

definition is_valid :: "solver \<Rightarrow> board \<Rightarrow> nat \<Rightarrow> nat \<Rightarrow> int \<Rightarrow> error + bool" where
  "is_valid s board row col num =
     (case scan board num (\<lambda>(i, j). j \<noteq> col) (map (\<lambda>j. (row, j)) [0..<size_n s]) of
        Inl e \<Rightarrow> Inl e
      | Inr False \<Rightarrow> Inr False
      | Inr True \<Rightarrow>
         (case scan board num (\<lambda>(i, j). i \<noteq> row) (map (\<lambda>i. (i, col)) [0..<size_n s]) of
            Inl e \<Rightarrow> Inl e
          | Inr False \<Rightarrow> Inr False
          | Inr True \<Rightarrow>
             if subgrid_size s = 0 then Inl ZeroDivisionError
             else scan board num (\<lambda>(i, j). (i, j) \<noteq> (row, col)) (box_cells s row col)))"

subsection \<open>What the checker is meant to decide\<close>

definition square_config :: "solver \<Rightarrow> bool" where
  "square_config s = (subgrid_size s * subgrid_size s = size_n s)"

definition well_formed :: "solver \<Rightarrow> board \<Rightarrow> bool" where
  "well_formed s board =
     (length board = size_n s \<and> list_all (\<lambda>row. length row = size_n s) board)"

definition same_box :: "solver \<Rightarrow> nat \<times> nat \<Rightarrow> nat \<times> nat \<Rightarrow> bool" where
  "same_box s p q =
     (fst p div subgrid_size s = fst q div subgrid_size s \<and>
      snd p div subgrid_size s = snd q div subgrid_size s)"

text \<open>
  The specification's wording: the value occurs at some cell other than \<open>(row, col)\<close> in
  the same row, the same column or the same box.
\<close>

definition occurs_elsewhere :: "solver \<Rightarrow> board \<Rightarrow> nat \<Rightarrow> nat \<Rightarrow> int \<Rightarrow> bool" where
  "occurs_elsewhere s board row col num =
     (\<exists>i j. i < size_n s \<and> j < size_n s \<and> (i, j) \<noteq> (row, col) \<and>
        (i = row \<or> j = col \<or> same_box s (i, j) (row, col)) \<and> board ! i ! j = num)"

section \<open>The candidate selectors\<close>

text \<open>\<open>find_empty\<close>: the first cell holding \<open>0\<close> in row-major order.\<close>

fun find_empty_from :: "board \<Rightarrow> (nat \<times> nat) list \<Rightarrow> error + (nat \<times> nat) option" where
  "find_empty_from board [] = Inr None"
| "find_empty_from board ((i, j) # rest) =
     (case cell board i j of
        Inl e \<Rightarrow> Inl e
      | Inr v \<Rightarrow> if v = 0 then Inr (Some (i, j)) else find_empty_from board rest)"

definition find_empty :: "solver \<Rightarrow> board \<Rightarrow> error + (nat \<times> nat) option" where
  "find_empty s board = find_empty_from board (all_cells (size_n s))"

text \<open>\<open>range(1, self.size + 1)\<close>.\<close>

definition value_range :: "solver \<Rightarrow> int list" where
  "value_range s = map int [1..<Suc (size_n s)]"

text \<open>
  The inner loop of \<open>find_best_empty\<close>: the values of the range that \<open>is_valid\<close>
  accepts at \<open>(i, j)\<close>, in the order of the range.
\<close>

fun possible_list :: "solver \<Rightarrow> board \<Rightarrow> nat \<Rightarrow> nat \<Rightarrow> int list \<Rightarrow> error + int list" where
  "possible_list s board i j [] = Inr []"
| "possible_list s board i j (num # nums) =
     (case is_valid s board i j num of
        Inl e \<Rightarrow> Inl e
      | Inr ok \<Rightarrow>
         (case possible_list s board i j nums of
            Inl e \<Rightarrow> Inl e
          | Inr possible \<Rightarrow> Inr (if ok then num # possible else possible)))"

text \<open>
  The scan of \<open>find_best_empty\<close>, carrying \<open>best_cell\<close> and \<open>min_options\<close>; it returns
  from inside the loop as soon as a new minimum is \<open>1\<close>.
\<close>

fun find_best_from ::
  "solver \<Rightarrow> board \<Rightarrow> (nat \<times> nat \<times> int list) option \<Rightarrow> nat \<Rightarrow> (nat \<times> nat) list
     \<Rightarrow> error + (nat \<times> nat \<times> int list) option" where
  "find_best_from s board best_cell min_options [] = Inr best_cell"
| "find_best_from s board best_cell min_options ((i, j) # rest) =
     (case cell board i j of
        Inl e \<Rightarrow> Inl e
      | Inr v \<Rightarrow>
         if v = 0 then
           (case possible_list s board i j (value_range s) of
              Inl e \<Rightarrow> Inl e
            | Inr possible \<Rightarrow>
               if length possible < min_options then
                 (if length possible = 1 then Inr (Some (i, j, possible))
                  else find_best_from s board (Some (i, j, possible)) (length possible) rest)
               else find_best_from s board best_cell min_options rest)
         else find_best_from s board best_cell min_options rest)"

definition find_best_empty :: "solver \<Rightarrow> board \<Rightarrow> error + (nat \<times> nat \<times> int list) option" where
  "find_best_empty s board =
     find_best_from s board None (size_n s + 1) (all_cells (size_n s))"

section \<open>The board validator\<close>

text \<open>
  The second component of \<open>validate_board\<close>'s result, with the numbers its text is
  formatted from: \<open>Board must be NxN\<close>, \<open>Value num at (i,j) is not between 0 and N\<close>,
  \<open>Conflict: num at (i,j) violates Sudoku rules\<close>, \<open>Valid board\<close>.
\<close>

datatype message =
    Valid_board
  | Board_must_be nat
  | Value_not_between int nat nat nat
  | Conflict int nat nat

text \<open>
  The loop over the cells. The board is threaded through: a filled cell is set to \<open>0\<close>,
  checked, and set back to its value on both paths.
\<close>

fun validate_from :: "solver \<Rightarrow> board \<Rightarrow> (nat \<times> nat) list \<Rightarrow> error + board \<times> bool \<times> message" where
  "validate_from s board [] = Inr (board, True, Valid_board)"
| "validate_from s board ((i, j) # rest) =
     (case cell board i j of
        Inl e \<Rightarrow> Inl e
      | Inr num \<Rightarrow>
         if \<not> (0 \<le> num \<and> num \<le> int (size_n s))
         then Inr (board, False, Value_not_between num i j (size_n s))
         else if num \<noteq> 0 then
           (case set_cell board i j 0 of
              Inl e \<Rightarrow> Inl e
            | Inr blanked \<Rightarrow>
               (case is_valid s blanked i j num of
                  Inl e \<Rightarrow> Inl e
                | Inr ok \<Rightarrow>
                   (case set_cell blanked i j num of
                      Inl e \<Rightarrow> Inl e
                    | Inr restored \<Rightarrow>
                       if \<not> ok then Inr (restored, False, Conflict num i j)
                       else validate_from s restored rest)))
         else validate_from s board rest)"

definition validate_board :: "solver \<Rightarrow> board \<Rightarrow> error + board \<times> bool \<times> message" where
  "validate_board s board =
     (if length board \<noteq> size_n s \<or> list_ex (\<lambda>row. length row \<noteq> size_n s) board
      then Inr (board, False, Board_must_be (size_n s))
      else validate_from s board (all_cells (size_n s)))"

section \<open>The search\<close>

text \<open>
  A call of a solver yields the updated solver object, the board as the call leaves it
  and the returned flag, or an exception. The recursion is bounded by fuel, one unit
  per nested call; \<open>None\<close> means the fuel ran out. Python's own stack is taken as
  unbounded. The step-by-step printing is left out.
\<close>

type_synonym outcome = "(error + solver \<times> board \<times> bool) option"

text \<open>
  The \<open>for num in ...\<close> loop shared by both solvers: test, assign, recurse, return
  \<open>True\<close> on success, otherwise reset the cell to \<open>0\<close> and go on.
\<close>

fun try_values ::
  "(solver \<Rightarrow> board \<Rightarrow> outcome) \<Rightarrow> solver \<Rightarrow> board \<Rightarrow> nat \<Rightarrow> nat \<Rightarrow> int list \<Rightarrow> outcome" where
  "try_values recurse s board row col [] = Some (Inr (s, board, False))"
| "try_values recurse s board row col (num # nums) =
     (case is_valid s board row col num of
        Inl e \<Rightarrow> Some (Inl e)
      | Inr False \<Rightarrow> try_values recurse s board row col nums
      | Inr True \<Rightarrow>
         (case set_cell board row col num of
            Inl e \<Rightarrow> Some (Inl e)
          | Inr assigned \<Rightarrow>
             (case recurse s assigned of
                None \<Rightarrow> None
              | Some (Inl e) \<Rightarrow> Some (Inl e)
              | Some (Inr (s', board', True)) \<Rightarrow> Some (Inr (s', board', True))
              | Some (Inr (s', board', False)) \<Rightarrow>
                 (case set_cell board' row col 0 of
                    Inl e \<Rightarrow> Some (Inl e)
                  | Inr undone \<Rightarrow> try_values recurse s' undone row col nums))))"

primrec solve_with_mrv :: "nat \<Rightarrow> (nat \<Rightarrow> bool) \<Rightarrow> solver \<Rightarrow> board \<Rightarrow> outcome" where
  "solve_with_mrv 0 expired s board = None"
| "solve_with_mrv (Suc fuel) expired s board =
     (if expired (clock_reads s)
      then Some (Inr (s\<lparr>clock_reads := Suc (clock_reads s), time_limit_exceeded := True\<rparr>,
                      board, False))
      else
        (let s1 = s\<lparr>clock_reads := Suc (clock_reads s),
                    recursive_calls := Suc (recursive_calls s)\<rparr>
         in case find_best_empty s1 board of
              Inl e \<Rightarrow> Some (Inl e)
            | Inr None \<Rightarrow> Some (Inr (s1, board, True))
            | Inr (Some (row, col, possible_values)) \<Rightarrow>
                try_values (solve_with_mrv fuel expired) s1 board row col possible_values))"

primrec solve_simple :: "nat \<Rightarrow> (nat \<Rightarrow> bool) \<Rightarrow> solver \<Rightarrow> board \<Rightarrow> outcome" where
  "solve_simple 0 expired s board = None"
| "solve_simple (Suc fuel) expired s board =
     (if expired (clock_reads s)
      then Some (Inr (s\<lparr>clock_reads := Suc (clock_reads s), time_limit_exceeded := True\<rparr>,
                      board, False))
      else
        (let s1 = s\<lparr>clock_reads := Suc (clock_reads s),
                    recursive_calls := Suc (recursive_calls s)\<rparr>
         in case find_empty s1 board of
              Inl e \<Rightarrow> Some (Inl e)
            | Inr None \<Rightarrow> Some (Inr (s1, board, True))
            | Inr (Some (row, col)) \<Rightarrow>
                try_values (solve_simple fuel expired) s1 board row col (value_range s1)))"

text \<open>The copy of the solution back into the caller's board, cell by cell.\<close>

fun copy_back :: "board \<Rightarrow> board \<Rightarrow> (nat \<times> nat) list \<Rightarrow> error + board" where
  "copy_back board board_copy [] = Inr board"
| "copy_back board board_copy ((i, j) # rest) =
     (case cell board_copy i j of
        Inl e \<Rightarrow> Inl e
      | Inr v \<Rightarrow>
         (case set_cell board i j v of
            Inl e \<Rightarrow> Inl e
          | Inr board' \<Rightarrow> copy_back board' board_copy rest))"

text \<open>
  \<open>measure_performance\<close> returns the solver object, the caller's board, the result flag
  and the call count; the elapsed time is left out. \<open>board_copy\<close> is the board itself,
  rows being values.
\<close>

definition measure_performance ::
  "nat \<Rightarrow> (nat \<Rightarrow> bool) \<Rightarrow> solver \<Rightarrow> board \<Rightarrow> bool
     \<Rightarrow> (error + solver \<times> board \<times> bool \<times> nat) option" where
  "measure_performance fuel expired s board use_mrv =
     (let s0 = s\<lparr>recursive_calls := 0, time_limit_exceeded := False\<rparr> in
      case validate_board s0 board of
        Inl e \<Rightarrow> Some (Inl e)
      | Inr (board_copy, is_ok, msg) \<Rightarrow>
         if \<not> is_ok then Some (Inr (s0, board, False, 0))
         else
           (case (if use_mrv then solve_with_mrv fuel expired s0 board_copy
                  else solve_simple fuel expired s0 board_copy) of
              None \<Rightarrow> None
            | Some (Inl e) \<Rightarrow> Some (Inl e)
            | Some (Inr (s1, solved, result)) \<Rightarrow>
               if result then
                 (case copy_back board solved (all_cells (size_n s1)) of
                    Inl e \<Rightarrow> Some (Inl e)
                  | Inr board' \<Rightarrow> Some (Inr (s1, board', True, recursive_calls s1)))
               else Some (Inr (s1, board, False, recursive_calls s1))))"

section \<open>Vocabulary of the properties\<close>

subsection \<open>Cells and grids\<close>

definition in_grid :: "solver \<Rightarrow> nat \<times> nat \<Rightarrow> bool" where
  "in_grid s p = (fst p < size_n s \<and> snd p < size_n s)"

text \<open>Row-major order: \<open>p\<close> is visited before \<open>q\<close> by the nested loops over a grid.\<close>

definition before :: "nat \<times> nat \<Rightarrow> nat \<times> nat \<Rightarrow> bool" where
  "before p q = (fst p < fst q \<or> (fst p = fst q \<and> snd p < snd q))"

definition empty_at :: "board \<Rightarrow> nat \<times> nat \<Rightarrow> bool" where
  "empty_at board p = (board ! fst p ! snd p = 0)"

text \<open>The board after \<open>board[i][j] = v\<close>.\<close>

definition assigned :: "board \<Rightarrow> nat \<Rightarrow> nat \<Rightarrow> int \<Rightarrow> board" where
  "assigned board i j v = board[i := (board ! i)[j := v]]"

subsection \<open>Valid grids\<close>

text \<open>
  The two faults \<open>validate_board\<close> looks for at a cell: a value outside \<open>0..N\<close>, and a
  filled cell whose value occurs elsewhere in its row, column or box.
\<close>

definition out_of_range :: "solver \<Rightarrow> board \<Rightarrow> nat \<times> nat \<Rightarrow> bool" where
  "out_of_range s board p =
     (\<not> (0 \<le> board ! fst p ! snd p \<and> board ! fst p ! snd p \<le> int (size_n s)))"

definition in_conflict :: "solver \<Rightarrow> board \<Rightarrow> nat \<times> nat \<Rightarrow> bool" where
  "in_conflict s board p =
     (board ! fst p ! snd p \<noteq> 0 \<and>
      occurs_elsewhere s board (fst p) (snd p) (board ! fst p ! snd p))"

definition faulty :: "solver \<Rightarrow> board \<Rightarrow> nat \<times> nat \<Rightarrow> bool" where
  "faulty s board p = (out_of_range s board p \<or> in_conflict s board p)"

text \<open>What \<open>validate_board\<close> returns for the first faulty cell, if any.\<close>

fun report :: "solver \<Rightarrow> board \<Rightarrow> (nat \<times> nat) option \<Rightarrow> bool \<times> message" where
  "report s board None = (True, Valid_board)"
| "report s board (Some (i, j)) =
     (False, if out_of_range s board (i, j)
             then Value_not_between (board ! i ! j) i j (size_n s)
             else Conflict (board ! i ! j) i j)"

text \<open>A valid grid: of the right dimensions, with no faulty cell.\<close>

definition valid_grid :: "solver \<Rightarrow> board \<Rightarrow> bool" where
  "valid_grid s board =
     (well_formed s board \<and> (\<forall>p. in_grid s p \<longrightarrow> \<not> faulty s board p))"

subsection \<open>Candidates\<close>

text \<open>The candidate set of a cell: the values of \<open>1..N\<close>, ascending, that do not occur
  elsewhere in its row, column or box.\<close>

definition candidates :: "solver \<Rightarrow> board \<Rightarrow> nat \<times> nat \<Rightarrow> int list" where
  "candidates s board p =
     filter (\<lambda>num. \<not> occurs_elsewhere s board (fst p) (snd p) num) (value_range s)"

definition options :: "solver \<Rightarrow> board \<Rightarrow> nat \<times> nat \<Rightarrow> nat" where
  "options s board p = length (candidates s board p)"

text \<open>What the scan of \<open>find_best_empty\<close> has picked when it returns \<open>q\<close> out of the
  cells \<open>pre @ q # post\<close>, entered with the bound \<open>m\<close>.\<close>

definition picked ::
  "solver \<Rightarrow> board \<Rightarrow> nat \<Rightarrow> (nat \<times> nat) list \<Rightarrow> nat \<times> nat \<Rightarrow> (nat \<times> nat) list \<Rightarrow> bool" where
  "picked s board m pre q post =
     (empty_at board q \<and> options s board q < m \<and>
      (\<forall>p \<in> set pre. empty_at board p \<longrightarrow>
          options s board q < options s board p \<and>
          (options s board p < m \<longrightarrow> options s board p \<noteq> 1)) \<and>
      (options s board q = 1 \<or>
       (\<forall>p \<in> set post. empty_at board p \<longrightarrow> options s board q \<le> options s board p)))"

subsection \<open>What solving means\<close>

definition complete :: "solver \<Rightarrow> board \<Rightarrow> bool" where
  "complete s board = (\<forall>p. in_grid s p \<longrightarrow> \<not> empty_at board p)"

definition extends :: "solver \<Rightarrow> board \<Rightarrow> board \<Rightarrow> bool" where
  "extends s board full =
     (\<forall>p. in_grid s p \<and> \<not> empty_at board p \<longrightarrow>
          full ! fst p ! snd p = board ! fst p ! snd p)"

text \<open>A solution of a board: a valid grid without empty cells that keeps every filled
  cell of the board. A board is solvable when it has one.\<close>

definition solution :: "solver \<Rightarrow> board \<Rightarrow> board \<Rightarrow> bool" where
  "solution s board full = (valid_grid s full \<and> complete s full \<and> extends s board full)"

definition solvable :: "solver \<Rightarrow> board \<Rightarrow> bool" where
  "solvable s board = (\<exists>full. solution s board full)"

text \<open>Two solver objects with the same size and box size; the counters may differ.\<close>

definition same_config :: "solver \<Rightarrow> solver \<Rightarrow> bool" where
  "same_config s s' = (size_n s' = size_n s \<and> subgrid_size s' = subgrid_size s)"

definition empty_cells :: "solver \<Rightarrow> board \<Rightarrow> (nat \<times> nat) set" where
  "empty_cells s board = {p. in_grid s p \<and> empty_at board p}"

text \<open>A value that can be placed at an empty cell and leads to a solution.\<close>

definition promising :: "solver \<Rightarrow> board \<Rightarrow> nat \<Rightarrow> nat \<Rightarrow> int \<Rightarrow> bool" where
  "promising s board row col num =
     (\<not> occurs_elsewhere s board row col num \<and> solvable s (assigned board row col num))"

text \<open>A recursive call that, with no deadline passing, decides every valid board with
  at most \<open>k\<close> empty cells: it returns whether the board is solvable, with a solution
  on \<open>True\<close> and the board untouched on \<open>False\<close>.\<close>

definition decides :: "(solver \<Rightarrow> board \<Rightarrow> outcome) \<Rightarrow> solver \<Rightarrow> nat \<Rightarrow> bool" where
  "decides recurse s k =
     (\<forall>s1 board. same_config s s1 \<and> valid_grid s board \<and> card (empty_cells s board) \<le> k \<longrightarrow>
        (\<exists>s2 board'. recurse s1 board = Some (Inr (s2, board', solvable s board)) \<and>
            same_config s s2 \<and> time_limit_exceeded s2 = time_limit_exceeded s1 \<and>
            (if solvable s board then solution s board board' else board' = board)))"

section \<open>Clocks and boards used in the examples\<close>

text \<open>A float power that raises for every size it is asked about.\<close>

definition root_overflows :: "nat \<Rightarrow> error + nat" where
  "root_overflows n = Inl OverflowError"

text \<open>A clock that never passes the deadline, and one that passes it from the \<open>n\<close>-th
  reading on.\<close>

definition never_expired :: "nat \<Rightarrow> bool" where
  "never_expired k = False"

definition expired_from :: "nat \<Rightarrow> nat \<Rightarrow> bool" where
  "expired_from n k = (n \<le> k)"

definition solver4 :: solver where
  "solver4 = \<lparr>size_n = 4, subgrid_size = 2, recursive_calls = 0,
              time_limit_exceeded = False, clock_reads = 0\<rparr>"

text \<open>The 4x4 grid of the specification's scenario, and its completion.\<close>

definition board4 :: board where
  "board4 = [[1, 0, 0, 0], [0, 0, 3, 0], [0, 2, 0, 0], [0, 0, 0, 4]]"

definition solved4 :: board where
  "solved4 = [[1, 3, 4, 2], [2, 4, 3, 1], [4, 2, 1, 3], [3, 1, 2, 4]]"

text \<open>A board with a repeated value in its first row, and one that also holds a value
  outside the range at its last cell.\<close>

definition dup4 :: board where
  "dup4 = [[1, 0, 0, 1], [0, 0, 3, 0], [0, 2, 0, 0], [0, 0, 0, 4]]"

definition mixed4 :: board where
  "mixed4 = [[1, 1, 0, 0], [0, 0, 0, 0], [0, 0, 0, 0], [0, 0, 0, 9]]"

text \<open>A valid 4x4 grid with no completion: after \<open>4\<close> at \<open>(0, 2)\<close> nothing fits
  \<open>(0, 3)\<close>.\<close>

definition stuck4 :: board where
  "stuck4 = [[1, 2, 0, 0], [0, 0, 0, 3], [0, 0, 0, 4], [0, 0, 0, 0]]"

text \<open>A valid grid whose first cell has no candidate left.\<close>

definition zero4 :: board where
  "zero4 = [[0, 1, 2, 0], [3, 4, 0, 0], [0, 0, 0, 0], [0, 0, 0, 0]]"

section \<open>Properties of the constraint checker\<close>

lemma cell_well_formed:
  "well_formed s board \<Longrightarrow> i < size_n s \<Longrightarrow> j < size_n s \<Longrightarrow> cell board i j = Inr (board ! i ! j)"
  by (simp add: cell_def well_formed_def list_all_length)

lemma scan_in_grid:
  assumes "well_formed s board" and "\<forall>p \<in> set cells. fst p < size_n s \<and> snd p < size_n s"
  shows "scan board num other cells
           = Inr (\<not> (\<exists>p \<in> set cells. board ! fst p ! snd p = num \<and> other p))"
  using assms(2)
proof (induction cells)
  case Nil
  show ?case by simp
next
  case (Cons p cells)
  obtain i j where p: "p = (i, j)" by (cases p)
  from Cons.prems have ij: "i < size_n s" "j < size_n s" by (simp_all add: p)
  from Cons have IH: "scan board num other cells
           = Inr (\<not> (\<exists>p \<in> set cells. board ! fst p ! snd p = num \<and> other p))" by simp
  show ?case
    by (simp add: p cell_well_formed[OF assms(1) ij] IH)
qed

lemma box_start_bounds:
  assumes "b * b = n" and "r < (n::nat)"
  shows "(r div b) * b \<le> r" and "(r div b) * b + b \<le> n" and "0 < b"
proof -
  from assms show b0: "0 < b" by (cases b) auto
  show "(r div b) * b \<le> r" by (simp add: div_times_less_eq_dividend)
  from assms b0 have "r div b < b"
    by (metis less_mult_imp_div_less)
  then have "Suc (r div b) \<le> b" by simp
  then have "Suc (r div b) * b \<le> b * b" by (rule mult_le_mono1)
  with assms show "(r div b) * b + b \<le> n" by (simp add: add.commute)
qed

lemma box_cells_iff:
  assumes "0 < subgrid_size s"
  shows "(i, j) \<in> set (box_cells s row col) \<longleftrightarrow> same_box s (i, j) (row, col)"
proof -
  have k: "\<And>x r. (r div subgrid_size s) * subgrid_size s \<le> x \<and>
             x < (r div subgrid_size s) * subgrid_size s + subgrid_size s
             \<longleftrightarrow> x div subgrid_size s = r div subgrid_size s"
  proof -
    fix x r :: nat
    let ?b = "subgrid_size s"
    have "x div ?b = r div ?b \<longleftrightarrow> (r div ?b) * ?b \<le> x \<and> x < Suc (r div ?b) * ?b"
      using assms by (metis div_nat_eqI mult.commute div_times_less_eq_dividend
          dividend_less_div_times mult_Suc)
    then show "(r div ?b) * ?b \<le> x \<and> x < (r div ?b) * ?b + ?b \<longleftrightarrow> x div ?b = r div ?b"
      by (simp add: add.commute)
  qed
  show ?thesis
    by (simp add: box_cells_def Let_def same_box_def k)
qed

lemma same_box_in_grid:
  assumes "square_config s" and "row < size_n s" and "col < size_n s"
    and "same_box s (i, j) (row, col)"
  shows "i < size_n s \<and> j < size_n s"
proof -
  let ?b = "subgrid_size s"
  have b: "?b * ?b = size_n s" using assms(1) by (simp add: square_config_def)
  have b0: "0 < ?b" using box_start_bounds(3)[OF b assms(2)] .
  have "row div ?b < ?b" and "col div ?b < ?b"
    using assms(2,3) b b0 by (simp_all add: div_less_iff_less_mult)
  with assms(4) have "i div ?b < ?b" and "j div ?b < ?b"
    by (simp_all add: same_box_def)
  then show ?thesis using b b0 by (simp add: div_less_iff_less_mult)
qed

lemma is_valid_eq:
  assumes sq: "square_config s" and wf: "well_formed s board"
    and r: "row < size_n s" and c: "col < size_n s"
  shows "is_valid s board row col num = Inr (\<not> occurs_elsewhere s board row col num)"
proof -
  let ?n = "size_n s" and ?b = "subgrid_size s"
  define R where "R \<longleftrightarrow> (\<exists>j<?n. board ! row ! j = num \<and> j \<noteq> col)"
  define C where "C \<longleftrightarrow> (\<exists>i<?n. board ! i ! col = num \<and> i \<noteq> row)"
  define X where "X \<longleftrightarrow>
    (\<exists>i j. same_box s (i, j) (row, col) \<and> board ! i ! j = num \<and> (i, j) \<noteq> (row, col))"
  have b: "?b * ?b = ?n" using sq by (simp add: square_config_def)
  have b0: "0 < ?b" using box_start_bounds(3)[OF b r] .
  have rows: "scan board num (\<lambda>(i, j). j \<noteq> col) (map (\<lambda>j. (row, j)) [0..<?n]) = Inr (\<not> R)"
    unfolding R_def by (subst scan_in_grid[OF wf]) (use r in auto)
  have cols: "scan board num (\<lambda>(i, j). i \<noteq> row) (map (\<lambda>i. (i, col)) [0..<?n]) = Inr (\<not> C)"
    unfolding C_def by (subst scan_in_grid[OF wf]) (use c in auto)
  have inbox: "\<forall>p \<in> set (box_cells s row col). fst p < ?n \<and> snd p < ?n"
    using same_box_in_grid[OF sq r c] by (auto simp: box_cells_iff[OF b0])
  have box: "scan board num (\<lambda>(i, j). (i, j) \<noteq> (row, col)) (box_cells s row col) = Inr (\<not> X)"
    unfolding X_def
    by (subst scan_in_grid[OF wf inbox])
      (simp add: Bex_def box_cells_iff[OF b0] conj_ac del: prod.inject)
  have occ: "occurs_elsewhere s board row col num \<longleftrightarrow> R \<or> C \<or> X"
    unfolding occurs_elsewhere_def R_def C_def X_def
    using same_box_in_grid[OF sq r c] r c by blast
  have "is_valid s board row col num = Inr (\<not> (R \<or> C \<or> X))"
    unfolding is_valid_def rows cols box using b0 by (cases R; cases C; simp)
  then show ?thesis by (simp only: occ)
qed

text \<open>
  Claim C9. On a well-formed board of a solver whose box size squares to its size, for
  every cell address inside the grid and every value, \<open>is_valid\<close> returns \<open>False\<close>
  exactly when the value occurs at some other cell of the same row, the same column or
  the same box, and \<open>True\<close> otherwise. The cell itself is excluded, so a cell that holds
  the value does not conflict with itself. \<open>is_valid\<close> only reads the board: its result
  is a flag, and no board comes back from it.
\<close>

theorem is_valid_decides_conflict:
  assumes "square_config s" and "well_formed s board"
    and "row < size_n s" and "col < size_n s"
  shows "is_valid s board row col num = Inr (\<not> occurs_elsewhere s board row col num)"
  using assms by (rule is_valid_eq)

theorem is_valid_decides_conflict_witness:
  "is_valid solver4 board4 0 0 1 = Inr True \<and> \<not> occurs_elsewhere solver4 board4 0 0 1 \<and>
   is_valid solver4 board4 0 1 1 = Inr False \<and> occurs_elsewhere solver4 board4 0 1 1"
proof -
  have a: "is_valid solver4 board4 0 0 1 = Inr (\<not> occurs_elsewhere solver4 board4 0 0 1)"
    by (rule is_valid_decides_conflict)
      (simp_all add: square_config_def well_formed_def solver4_def board4_def)
  have b: "is_valid solver4 board4 0 1 1 = Inr (\<not> occurs_elsewhere solver4 board4 0 1 1)"
    by (rule is_valid_decides_conflict)
      (simp_all add: square_config_def well_formed_def solver4_def board4_def)
  have a': "is_valid solver4 board4 0 0 1 = Inr True" by code_simp
  have b': "is_valid solver4 board4 0 1 1 = Inr False" by code_simp
  from a a' b b' show ?thesis by simp
qed

text \<open>
  Claim C10. When the box size squares to the grid size, on a well-formed board and for
  a cell address inside the grid, \<open>is_valid\<close> raises nothing: every cell of the box scan
  lies inside the grid, the two ranges of the scan end at or before the grid size, and
  the call returns a flag.
\<close>

theorem is_valid_stays_in_grid:
  assumes "square_config s" and "well_formed s board"
    and "row < size_n s" and "col < size_n s"
  shows "(\<exists>ok. is_valid s board row col num = Inr ok) \<and>
         (\<forall>p \<in> set (box_cells s row col). fst p < size_n s \<and> snd p < size_n s) \<and>
         (row div subgrid_size s) * subgrid_size s + subgrid_size s \<le> size_n s \<and>
         (col div subgrid_size s) * subgrid_size s + subgrid_size s \<le> size_n s"
proof -
  let ?b = "subgrid_size s"
  have b: "?b * ?b = size_n s" using assms(1) by (simp add: square_config_def)
  have b0: "0 < ?b" using box_start_bounds(3)[OF b assms(3)] .
  have "\<exists>ok. is_valid s board row col num = Inr ok"
    using is_valid_eq[OF assms] by blast
  moreover have "\<forall>p \<in> set (box_cells s row col). fst p < size_n s \<and> snd p < size_n s"
    using same_box_in_grid[OF assms(1,3,4)] by (auto simp: box_cells_iff[OF b0])
  moreover note box_start_bounds(2)[OF b assms(3)] box_start_bounds(2)[OF b assms(4)]
  ultimately show ?thesis by blast
qed

theorem is_valid_stays_in_grid_witness:
  "(\<exists>ok. is_valid solver4 board4 3 3 4 = Inr ok) \<and>
   box_cells solver4 3 3 = [(2, 2), (2, 3), (3, 2), (3, 3)]"
proof -
  have "(\<exists>ok. is_valid solver4 board4 3 3 4 = Inr ok) \<and>
         (\<forall>p \<in> set (box_cells solver4 3 3). fst p < size_n solver4 \<and> snd p < size_n solver4) \<and>
         (3 div subgrid_size solver4) * subgrid_size solver4 + subgrid_size solver4
            \<le> size_n solver4 \<and>
         (3 div subgrid_size solver4) * subgrid_size solver4 + subgrid_size solver4
            \<le> size_n solver4"
    by (rule is_valid_stays_in_grid)
      (simp_all add: square_config_def well_formed_def solver4_def board4_def)
  moreover have "box_cells solver4 3 3 = [(2, 2), (2, 3), (3, 2), (3, 3)]" by code_simp
  ultimately show ?thesis by blast
qed

section \<open>The constructor\<close>

lemma sqrt_upto_le: "sqrt_upto n k * sqrt_upto n k \<le> n"
  by (induction k) auto

lemma sqrt_upto_max: "sqrt_upto n k < j \<Longrightarrow> j \<le> k \<Longrightarrow> n < j * j"
proof (induction k)
  case 0
  then show ?case by simp
next
  case (Suc k)
  show ?case
  proof (cases "Suc k * Suc k \<le> n")
    case True
    with Suc.prems show ?thesis by simp
  next
    case False
    show ?thesis
    proof (cases "j = Suc k")
      case True
      with False show ?thesis by simp
    next
      case F2: False
      with Suc.prems False have "sqrt_upto n k < j" "j \<le> k" by simp_all
      then show ?thesis by (rule Suc.IH)
    qed
  qed
qed

lemma int_sqrt_bounds:
  "int_sqrt n * int_sqrt n \<le> n" "n < Suc (int_sqrt n) * Suc (int_sqrt n)"
proof -
  show "int_sqrt n * int_sqrt n \<le> n" by (simp add: int_sqrt_def sqrt_upto_le)
  have le: "sqrt_upto n n \<le> n"
    using sqrt_upto_le[of n n] by (metis le_square le_trans)
  show "n < Suc (int_sqrt n) * Suc (int_sqrt n)"
  proof (cases "Suc (int_sqrt n) \<le> n")
    case True
    then show ?thesis using sqrt_upto_max[of n n "Suc (int_sqrt n)"] by (simp add: int_sqrt_def)
  next
    case False
    with le have "int_sqrt n = n" by (simp add: int_sqrt_def)
    then show ?thesis by simp
  qed
qed

text \<open>
  Claim C4, as the code has it. The constructor has no check of the size and no
  configuration error: for every size \<open>0 \<le> n < 2 ^ 52\<close> it returns a solver whose box
  size is the integer part of the square root of \<open>n\<close>, also when \<open>n\<close> is not a perfect
  square. At \<open>n = 5\<close> the box size is \<open>2\<close>, and \<open>2 * 2\<close> is not \<open>5\<close>. From \<open>2 ^ 52\<close> on
  the outcome is that of the float power, whatever it is.
\<close>

theorem init_has_no_size_check:
  assumes "0 \<le> n" and "n < 2 ^ 52"
  shows "init float_root n =
           Inr \<lparr>size_n = nat n, subgrid_size = int_sqrt (nat n), recursive_calls = 0,
                 time_limit_exceeded = False, clock_reads = 0\<rparr> \<and>
         int_sqrt (nat n) * int_sqrt (nat n) \<le> nat n \<and>
         nat n < Suc (int_sqrt (nat n)) * Suc (int_sqrt (nat n))"
  using assms int_sqrt_bounds[of "nat n"] by (simp add: init_def)

theorem init_has_no_size_check_witness:
  "init root_overflows 9 = Inr \<lparr>size_n = 9, subgrid_size = 3, recursive_calls = 0,
                                 time_limit_exceeded = False, clock_reads = 0\<rparr>"
proof -
  have "int_sqrt 9 = 3" by code_simp
  then show ?thesis using init_has_no_size_check[of 9 root_overflows] by simp
qed

theorem init_accepts_non_square:
  "init root_overflows 5 = Inr \<lparr>size_n = 5, subgrid_size = 2, recursive_calls = 0,
                                 time_limit_exceeded = False, clock_reads = 0\<rparr> \<and>
   int_sqrt 5 * int_sqrt 5 \<noteq> 5"
proof -
  have "int_sqrt 5 = 2" by code_simp
  then show ?thesis by (simp add: init_def)
qed

section \<open>Properties of the board validator\<close>

subsection \<open>Assignments\<close>

lemma cell_Inr_iff:
  "cell board i j = Inr v \<longleftrightarrow> i < length board \<and> j < length (board ! i) \<and> v = board ! i ! j"
  by (auto simp: cell_def)

lemma set_cell_Inr_iff:
  "set_cell board i j v = Inr b' \<longleftrightarrow>
     i < length board \<and> j < length (board ! i) \<and> b' = assigned board i j v"
  by (auto simp: set_cell_def assigned_def)

lemma assigned_restore:
  assumes "i < length board" and "board ! i ! j = num"
  shows "assigned (assigned board i j v) i j num = board"
proof -
  have "(board ! i)[j := num] = board ! i"
    using assms(2) by (metis list_update_id)
  then show ?thesis using assms(1) by (simp add: assigned_def)
qed

lemma set_cell_after_cell:
  assumes "cell board i j = Inr num"
  shows "set_cell board i j v = Inr (assigned board i j v)"
    and "set_cell (assigned board i j v) i j num = Inr board"
proof -
  from assms have i: "i < length board" and j: "j < length (board ! i)"
    and n: "board ! i ! j = num" by (simp_all add: cell_Inr_iff)
  show "set_cell board i j v = Inr (assigned board i j v)"
    using i j by (simp add: set_cell_Inr_iff)
  have "set_cell (assigned board i j v) i j num
          = Inr (assigned (assigned board i j v) i j num)"
    using i j by (simp add: set_cell_Inr_iff) (simp add: assigned_def)
  then show "set_cell (assigned board i j v) i j num = Inr board"
    by (simp add: assigned_restore[OF i n])
qed

lemma well_formed_assigned:
  "well_formed s board \<Longrightarrow> well_formed s (assigned board i j v)"
  by (cases "i < length board")
    (auto simp: well_formed_def assigned_def list_all_length nth_list_update)

lemma nth_assigned:
  assumes "well_formed s board" and "in_grid s (i, j)" and "in_grid s (i', j')"
  shows "assigned board i j v ! i' ! j' = (if (i', j') = (i, j) then v else board ! i' ! j')"
  using assms
  by (auto simp: well_formed_def assigned_def in_grid_def list_all_length nth_list_update)

lemma occurs_elsewhere_assigned:
  assumes "well_formed s board" and "in_grid s (i, j)"
  shows "occurs_elsewhere s (assigned board i j v) i j num = occurs_elsewhere s board i j num"
proof -
  have "assigned board i j v ! i' ! j' = board ! i' ! j'"
    if "i' < size_n s" and "j' < size_n s" and "(i', j') \<noteq> (i, j)" for i' j'
    using nth_assigned[OF assms, of i' j' v] that by (auto simp: in_grid_def)
  then show ?thesis
    unfolding occurs_elsewhere_def by (metis (no_types, lifting))
qed

lemma validate_from_board:
  "validate_from s board cells = Inr (board', r) \<Longrightarrow> board' = board"
proof (induction cells)
  case Nil
  then show ?case by simp
next
  case (Cons p cells)
  obtain i j where p: "p = (i, j)" by (cases p)
  show ?case
  proof (cases "cell board i j")
    case (Inl e)
    with Cons.prems show ?thesis by (simp add: p)
  next
    case (Inr num)
    note sc = set_cell_after_cell[OF Inr, of 0]
    from Cons.prems Cons.IH show ?thesis
      by (simp add: p Inr sc split: if_splits sum.splits)
  qed
qed

subsection \<open>Row-major order\<close>

lemma set_all_cells: "p \<in> set (all_cells n) \<longleftrightarrow> fst p < n \<and> snd p < n"
  by (cases p) (simp add: all_cells_def)

lemma length_all_cells: "length (all_cells n) = n * n"
  by (simp add: all_cells_def)

lemma all_cells_nth:
  assumes "k < n * n"
  shows "all_cells n ! k = (k div n, k mod n)"
proof -
  from assms have n0: "0 < n" by (cases n) auto
  from assms have d: "k div n < n" by (simp add: less_mult_imp_div_less)
  have m: "k mod n < n" using n0 by simp
  show ?thesis
    using assms d m by (simp add: all_cells_def product_nth)
qed

lemma cell_index:
  assumes "i < n" and "j < (n::nat)"
  shows "i * n + j < n * n" and "(i * n + j) div n = i" and "(i * n + j) mod n = j"
proof -
  from assms have "Suc i * n \<le> n * n" by (simp add: Suc_leI mult_le_mono1 del: mult_Suc)
  with assms(2) show "i * n + j < n * n" by simp
  show "(i * n + j) div n = i" using assms(2) by simp
  show "(i * n + j) mod n = j" using assms(2) by simp
qed

lemma before_index:
  assumes "0 < (n::nat)"
  shows "before (k div n, k mod n) (k' div n, k' mod n) \<longleftrightarrow> k < k'"
proof
  assume b: "before (k div n, k mod n) (k' div n, k' mod n)"
  show "k < k'"
  proof (rule ccontr)
    assume "\<not> k < k'"
    then have le: "k' \<le> k" by simp
    then have "k' div n \<le> k div n" by (rule div_le_mono)
    with b have eq: "k div n = k' div n" and lt: "k mod n < k' mod n"
      by (auto simp: before_def)
    define d where "d = k div n"
    define x where "x = k mod n"
    define y where "y = k' mod n"
    have "k = d * n + x" by (simp add: d_def x_def)
    moreover have "k' = d * n + y" using eq by (simp add: d_def y_def)
    moreover have "x < y" using lt by (simp add: x_def y_def)
    ultimately have "k < k'" by simp
    with le show False by simp
  qed
next
  assume lt: "k < k'"
  then have "k div n \<le> k' div n" by (simp add: div_le_mono)
  moreover have "k mod n < k' mod n" if "k div n = k' div n"
  proof -
    define d where "d = k div n"
    define x where "x = k mod n"
    define y where "y = k' mod n"
    have "k = d * n + x" by (simp add: d_def x_def)
    moreover have "k' = d * n + y" using that by (simp add: d_def y_def)
    ultimately have "x < y" using lt by simp
    then show ?thesis by (simp add: x_def y_def)
  qed
  ultimately show "before (k div n, k mod n) (k' div n, k' mod n)"
    by (auto simp: before_def)
qed

lemma find_all_cells_None:
  "find P (all_cells n) = None \<longleftrightarrow> (\<forall>p. fst p < n \<and> snd p < n \<longrightarrow> \<not> P p)"
  by (auto simp: find_None_iff set_all_cells)

lemma find_all_cells_Some:
  "find P (all_cells n) = Some q \<longleftrightarrow>
     fst q < n \<and> snd q < n \<and> P q \<and> (\<forall>p. fst p < n \<and> snd p < n \<and> before p q \<longrightarrow> \<not> P p)"
proof
  assume "find P (all_cells n) = Some q"
  then obtain k where k: "k < n * n" and Pk: "P (all_cells n ! k)" and q: "q = all_cells n ! k"
    and first: "\<forall>k'<k. \<not> P (all_cells n ! k')"
    by (auto simp: find_Some_iff length_all_cells)
  from k have n0: "0 < n" by (cases n) auto
  have qk: "q = (k div n, k mod n)" using q k by (simp add: all_cells_nth)
  have "fst q < n" using qk k by (simp add: less_mult_imp_div_less)
  moreover have "snd q < n" using qk n0 by simp
  moreover have "P q" using Pk q by simp
  moreover have "\<not> P p" if p: "fst p < n" "snd p < n" "before p q" for p
  proof -
    let ?k' = "fst p * n + snd p"
    have i: "?k' < n * n" "?k' div n = fst p" "?k' mod n = snd p"
      using cell_index[OF p(1,2)] by simp_all
    have pk: "p = all_cells n ! ?k'" using i by (simp add: all_cells_nth)
    have "before (?k' div n, ?k' mod n) (k div n, k mod n)"
      using p(3) qk i by simp
    then have "?k' < k" using before_index[OF n0] by blast
    with first pk show ?thesis by metis
  qed
  ultimately show "fst q < n \<and> snd q < n \<and> P q \<and>
     (\<forall>p. fst p < n \<and> snd p < n \<and> before p q \<longrightarrow> \<not> P p)" by blast
next
  assume a: "fst q < n \<and> snd q < n \<and> P q \<and>
     (\<forall>p. fst p < n \<and> snd p < n \<and> before p q \<longrightarrow> \<not> P p)"
  let ?k = "fst q * n + snd q"
  from a have n0: "0 < n" by (cases n) auto
  have i: "?k < n * n" "?k div n = fst q" "?k mod n = snd q"
    using cell_index[of "fst q" n "snd q"] a by simp_all
  have qk: "all_cells n ! ?k = q" using i by (simp add: all_cells_nth)
  have "\<not> P (all_cells n ! k')" if "k' < ?k" for k'
  proof -
    from that i(1) have k': "k' < n * n" by simp
    have "before (k' div n, k' mod n) (?k div n, ?k mod n)"
      using before_index[OF n0] that by blast
    then have "before (k' div n, k' mod n) q" using i by simp
    moreover have "k' div n < n" using k' by (simp add: less_mult_imp_div_less)
    moreover have "k' mod n < n" using n0 by simp
    ultimately have "\<not> P (k' div n, k' mod n)" using a by simp
    then show ?thesis using k' by (simp add: all_cells_nth)
  qed
  then show "find P (all_cells n) = Some q"
    using i(1) qk a by (auto simp: find_Some_iff length_all_cells)
qed

subsection \<open>What the validator reports\<close>

lemma validate_from_eq:
  assumes sq: "square_config s" and wf: "well_formed s board"
    and cells: "\<forall>p \<in> set cells. in_grid s p"
  shows "validate_from s board cells = Inr (board, report s board (find (faulty s board) cells))"
  using cells
proof (induction cells)
  case Nil
  show ?case by simp
next
  case (Cons p cells)
  obtain i j where p: "p = (i, j)" by (cases p)
  from Cons.prems have g: "in_grid s (i, j)" by (simp add: p)
  then have ij: "i < size_n s" "j < size_n s" by (simp_all add: in_grid_def)
  from Cons have IH: "validate_from s board cells
      = Inr (board, report s board (find (faulty s board) cells))" by simp
  define num where "num = board ! i ! j"
  have c: "cell board i j = Inr num"
    using cell_well_formed[OF wf ij] by (simp add: num_def)
  note sc = set_cell_after_cell[OF c, of 0]
  have v: "is_valid s (assigned board i j 0) i j num
             = Inr (\<not> occurs_elsewhere s board i j num)"
    using is_valid_eq[OF sq well_formed_assigned[OF wf] ij]
    by (simp add: occurs_elsewhere_assigned[OF wf g])
  have oor: "out_of_range s board (i, j) \<longleftrightarrow> \<not> (0 \<le> num \<and> num \<le> int (size_n s))"
    by (simp add: out_of_range_def num_def)
  have con: "in_conflict s board (i, j) \<longleftrightarrow> num \<noteq> 0 \<and> occurs_elsewhere s board i j num"
    by (simp add: in_conflict_def num_def)
  consider (range) "out_of_range s board (i, j)"
    | (conflict) "\<not> out_of_range s board (i, j)" "in_conflict s board (i, j)"
    | (fine) "\<not> out_of_range s board (i, j)" "\<not> in_conflict s board (i, j)"
    by blast
  then show ?case
  proof cases
    case range
    then have "validate_from s board (p # cells)
        = Inr (board, False, Value_not_between num i j (size_n s))"
      using oor by (simp add: p c)
    moreover from range have "faulty s board (i, j)" by (simp add: faulty_def)
    ultimately show ?thesis using range by (simp add: p num_def)
  next
    case conflict
    then have "validate_from s board (p # cells) = Inr (board, False, Conflict num i j)"
      using oor con by (simp add: p c sc v)
    moreover from conflict have "faulty s board (i, j)" by (simp add: faulty_def)
    ultimately show ?thesis using conflict by (simp add: p num_def)
  next
    case fine
    have "validate_from s board (p # cells) = validate_from s board cells"
    proof (cases "num = 0")
      case True
      with fine oor show ?thesis by (simp add: p c)
    next
      case False
      with fine oor con show ?thesis by (simp add: p c sc v)
    qed
    moreover from fine have "\<not> faulty s board (i, j)" by (simp add: faulty_def)
    ultimately show ?thesis using IH by (simp add: p)
  qed
qed

lemma well_formed_iff:
  "well_formed s board \<longleftrightarrow>
     \<not> (length board \<noteq> size_n s \<or> list_ex (\<lambda>row. length row \<noteq> size_n s) board)"
  by (auto simp: well_formed_def list_all_iff list_ex_iff)

lemma validate_board_eq:
  assumes "square_config s"
  shows "validate_board s board =
     (if well_formed s board
      then Inr (board, report s board (find (faulty s board) (all_cells (size_n s))))
      else Inr (board, False, Board_must_be (size_n s)))"
proof (cases "well_formed s board")
  case True
  have "\<forall>p \<in> set (all_cells (size_n s)). in_grid s p"
    by (simp add: set_all_cells in_grid_def)
  from validate_from_eq[OF assms True this] True show ?thesis
    unfolding validate_board_def well_formed_iff by simp
next
  case False
  then show ?thesis unfolding validate_board_def well_formed_iff by simp
qed

lemma validate_board_valid_iff:
  assumes "square_config s"
  shows "validate_board s board = Inr (board, True, Valid_board) \<longleftrightarrow> valid_grid s board"
proof (cases "well_formed s board")
  case False
  then show ?thesis by (simp add: validate_board_eq[OF assms] valid_grid_def)
next
  case True
  show ?thesis
  proof (cases "find (faulty s board) (all_cells (size_n s))")
    case None
    then show ?thesis
      using True by (simp add: validate_board_eq[OF assms] valid_grid_def in_grid_def
          find_all_cells_None[THEN iffD1])
  next
    case (Some q)
    then have "in_grid s q \<and> faulty s board q"
      by (simp add: find_all_cells_Some in_grid_def)
    moreover obtain i j where "q = (i, j)" by (cases q)
    ultimately show ?thesis
      using True Some by (auto simp: validate_board_eq[OF assms] valid_grid_def)
  qed
qed

lemma validate_board_board:
  "validate_board s board = Inr (board', r) \<Longrightarrow> board' = board"
  by (auto simp: validate_board_def split: if_splits dest: validate_from_board)

text \<open>
  Claim C7. Whenever \<open>validate_board\<close> returns, on any path, the board it leaves is the
  board it was given: a cell set to \<open>0\<close> for its check is set back before the return,
  also before the early return that reports a conflict. A second call on that board
  returns the same result. With a box size that squares to the grid size the call
  always returns.
\<close>

theorem validate_board_restores_board:
  "(validate_board s board = Inr (board', r) \<longrightarrow>
      board' = board \<and> validate_board s board' = Inr (board', r)) \<and>
   (square_config s \<longrightarrow> (\<exists>r. validate_board s board = Inr (board, r)))"
proof -
  have "board' = board \<and> validate_board s board' = Inr (board', r)"
    if "validate_board s board = Inr (board', r)"
    using that validate_board_board[OF that] by simp
  moreover have "\<exists>r. validate_board s board = Inr (board, r)" if "square_config s"
    by (cases "well_formed s board") (simp_all only: validate_board_eq[OF that] if_True if_False, blast+)
  ultimately show ?thesis by blast
qed

theorem validate_board_restores_board_witness:
  "validate_board solver4 dup4 = Inr (dup4, False, Conflict 1 0 0) \<and>
   (\<exists>r. validate_board solver4 dup4 = Inr (dup4, r))"
proof -
  have v: "validate_board solver4 dup4 = Inr (dup4, False, Conflict 1 0 0)" by code_simp
  have "square_config solver4" by (simp add: square_config_def solver4_def)
  with validate_board_restores_board[of solver4 dup4 dup4 "(False, Conflict 1 0 0)"] v
  show ?thesis by blast
qed

text \<open>
  Claim C6, as the code has it. A board of the wrong dimensions is reported before
  anything else. Otherwise the cells are visited once, in row-major order, and the
  first cell that is out of range or in conflict is reported, with its value and
  address; at one cell the range is tested before the conflict. A conflict at an
  earlier cell is therefore reported before a value out of range at a later cell.
\<close>

theorem validate_board_reports_first_fault:
  assumes "square_config s"
  shows "(\<not> well_formed s board \<longrightarrow>
            validate_board s board = Inr (board, False, Board_must_be (size_n s))) \<and>
         (well_formed s board \<and> (\<forall>p. in_grid s p \<longrightarrow> \<not> faulty s board p) \<longrightarrow>
            validate_board s board = Inr (board, True, Valid_board)) \<and>
         (well_formed s board \<and> in_grid s (i, j) \<and> faulty s board (i, j) \<and>
            (\<forall>p. in_grid s p \<and> before p (i, j) \<longrightarrow> \<not> faulty s board p) \<longrightarrow>
            validate_board s board =
              Inr (board, False,
                   if out_of_range s board (i, j)
                   then Value_not_between (board ! i ! j) i j (size_n s)
                   else Conflict (board ! i ! j) i j))"
proof -
  note eq = validate_board_eq[OF assms, of board]
  have 1: "validate_board s board = Inr (board, False, Board_must_be (size_n s))"
    if "\<not> well_formed s board"
    using that eq by simp
  have 2: "validate_board s board = Inr (board, True, Valid_board)"
    if "well_formed s board" and "\<forall>p. in_grid s p \<longrightarrow> \<not> faulty s board p"
  proof -
    from that(2) have "find (faulty s board) (all_cells (size_n s)) = None"
      by (simp add: find_all_cells_None in_grid_def)
    with that(1) eq show ?thesis by simp
  qed
  have 3: "validate_board s board =
              Inr (board, False,
                   if out_of_range s board (i, j)
                   then Value_not_between (board ! i ! j) i j (size_n s)
                   else Conflict (board ! i ! j) i j)"
    if "well_formed s board" and "in_grid s (i, j)" and "faulty s board (i, j)"
      and "\<forall>p. in_grid s p \<and> before p (i, j) \<longrightarrow> \<not> faulty s board p"
  proof -
    from that(2-4) have "find (faulty s board) (all_cells (size_n s)) = Some (i, j)"
      by (simp add: find_all_cells_Some in_grid_def)
    with that(1) eq show ?thesis by simp
  qed
  from 1 2 3 show ?thesis by blast
qed

theorem validate_board_reports_first_fault_witness:
  "validate_board solver4 mixed4 = Inr (mixed4, False, Conflict 1 0 0)"
proof -
  have sq: "square_config solver4" by (simp add: square_config_def solver4_def)
  have wf: "well_formed solver4 mixed4"
    by (simp add: well_formed_def solver4_def mixed4_def)
  have g: "in_grid solver4 (0, 0)" by (simp add: in_grid_def solver4_def)
  have v: "mixed4 ! 0 ! 0 = 1" by (simp add: mixed4_def)
  have r: "\<not> out_of_range solver4 mixed4 (0, 0)"
    by (simp add: out_of_range_def v solver4_def)
  have "is_valid solver4 mixed4 0 0 1 = Inr False" by code_simp
  then have "occurs_elsewhere solver4 mixed4 0 0 1"
    using is_valid_eq[OF sq wf, of 0 0 1] by (simp add: solver4_def)
  then have f: "faulty solver4 mixed4 (0, 0)"
    by (simp add: faulty_def in_conflict_def v)
  have first: "\<forall>p. in_grid solver4 p \<and> before p (0, 0) \<longrightarrow> \<not> faulty solver4 mixed4 p"
    by (simp add: before_def)
  from validate_board_reports_first_fault[OF sq, of mixed4 0 0] wf g f first r v
  show ?thesis by simp
qed

theorem validate_board_conflict_before_range:
  "validate_board solver4 mixed4 = Inr (mixed4, False, Conflict 1 0 0) \<and>
   out_of_range solver4 mixed4 (3, 3)"
proof -
  have "validate_board solver4 mixed4 = Inr (mixed4, False, Conflict 1 0 0)" by code_simp
  moreover have "out_of_range solver4 mixed4 (3, 3)"
    by (simp add: out_of_range_def mixed4_def solver4_def)
  ultimately show ?thesis by simp
qed

section \<open>A failing search restores the board\<close>

lemma find_empty_from_Some:
  "find_empty_from board cells = Inr (Some (i, j)) \<Longrightarrow> cell board i j = Inr 0"
proof (induction cells)
  case Nil
  then show ?case by simp
next
  case (Cons p cells)
  obtain a b where p: "p = (a, b)" by (cases p)
  from Cons show ?case
    by (cases "cell board a b") (auto simp: p split: if_splits)
qed

lemma find_best_from_Some:
  "find_best_from s board best m cells = Inr (Some (i, j, ps)) \<Longrightarrow>
     best = Some (i, j, ps) \<or> cell board i j = Inr 0"
proof (induction cells arbitrary: best m)
  case Nil
  then show ?case by simp
next
  case (Cons p cells)
  obtain a b where p: "p = (a, b)" by (cases p)
  show ?case
  proof (cases "cell board a b")
    case (Inl e)
    with Cons.prems show ?thesis by (simp add: p)
  next
    case (Inr v)
    show ?thesis
    proof (cases "v = 0")
      case False
      with Cons.prems Inr have "find_best_from s board best m cells = Inr (Some (i, j, ps))"
        by (simp add: p)
      then show ?thesis by (rule Cons.IH)
    next
      case True
      show ?thesis
      proof (cases "possible_list s board a b (value_range s)")
        case (Inl e)
        with Cons.prems Inr True show ?thesis by (simp add: p)
      next
        case poss: (Inr possible)
        consider (stop) "length possible < m" "length possible = 1"
          | (better) "length possible < m" "length possible \<noteq> 1"
          | (keep) "\<not> length possible < m" by blast
        then show ?thesis
        proof cases
          case stop
          with Cons.prems Inr True poss show ?thesis by (simp add: p)
        next
          case better
          with Cons.prems Inr True poss
          have "find_best_from s board (Some (a, b, possible)) (length possible) cells
                  = Inr (Some (i, j, ps))" by (simp add: p)
          from Cons.IH[OF this] Inr True show ?thesis by auto
        next
          case keep
          with Cons.prems Inr True poss
          have "find_best_from s board best m cells = Inr (Some (i, j, ps))" by (simp add: p)
          then show ?thesis by (rule Cons.IH)
        qed
      qed
    qed
  qed
qed

lemma try_values_frame:
  assumes rec: "\<And>s b s' b'. recurse s b = Some (Inr (s', b', False)) \<Longrightarrow> b' = b"
    and c: "cell board row col = Inr 0"
  shows "try_values recurse s board row col nums = Some (Inr (s', board', False)) \<Longrightarrow>
           board' = board"
proof (induction nums arbitrary: s)
  case Nil
  then show ?case by simp
next
  case (Cons num nums)
  show ?case
  proof (cases "is_valid s board row col num")
    case (Inl e)
    with Cons.prems show ?thesis by simp
  next
    case (Inr ok)
    show ?thesis
    proof (cases ok)
      case False
      with Cons.prems Inr have "try_values recurse s board row col nums
          = Some (Inr (s', board', False))" by simp
      then show ?thesis by (rule Cons.IH)
    next
      case True
      note a = set_cell_after_cell[OF c, of num]
      from a(2) have undo: "set_cell (assigned board row col num) row col 0 = Inr board" .
      show ?thesis
      proof (cases "recurse s (assigned board row col num)")
        case None
        with Cons.prems Inr True a(1) show ?thesis by simp
      next
        case (Some res)
        show ?thesis
        proof (cases res)
          case (Inl e)
          with Cons.prems Inr True a(1) Some show ?thesis by simp
        next
          case res: (Inr t)
          obtain s1 b1 flag where t: "t = (s1, b1, flag)" by (cases t)
          show ?thesis
          proof (cases flag)
            case True
            with Cons.prems Inr \<open>ok\<close> a(1) Some res t show ?thesis by simp
          next
            case False
            with Some res t have "b1 = assigned board row col num" by (simp add: rec)
            with Cons.prems Inr \<open>ok\<close> a(1) Some res t False undo
            have "try_values recurse s1 board row col nums = Some (Inr (s', board', False))"
              by simp
            then show ?thesis by (rule Cons.IH)
          qed
        qed
      qed
    qed
  qed
qed

lemma solve_simple_frame:
  "solve_simple fuel expired s board = Some (Inr (s', board', False)) \<Longrightarrow> board' = board"
proof (induction fuel arbitrary: s board s' board')
  case 0
  then show ?case by simp
next
  case (Suc fuel)
  show ?case
  proof (cases "expired (clock_reads s)")
    case True
    with Suc.prems show ?thesis by simp
  next
    case False
    define s1 where "s1 = s\<lparr>clock_reads := Suc (clock_reads s),
                             recursive_calls := Suc (recursive_calls s)\<rparr>"
    show ?thesis
    proof (cases "find_empty s1 board")
      case (Inl e)
      with Suc.prems False show ?thesis by (simp add: s1_def)
    next
      case (Inr found)
      show ?thesis
      proof (cases found)
        case None
        with Suc.prems False Inr show ?thesis by (simp add: s1_def)
      next
        case (Some p)
        obtain row col where p: "p = (row, col)" by (cases p)
        from Inr Some p have c: "cell board row col = Inr 0"
          by (simp add: find_empty_def find_empty_from_Some)
        from Suc.prems False Inr Some p
        have "try_values (solve_simple fuel expired) s1 board row col (value_range s1)
                = Some (Inr (s', board', False))" by (simp add: s1_def Let_def)
        then have t: "try_values (solve_simple fuel expired) s1 board row col (value_range s1)
                = Some (Inr (s', board', False))" .
        show ?thesis
        proof (rule try_values_frame[of "solve_simple fuel expired" board row col])
          show "\<And>s b s' b'. solve_simple fuel expired s b = Some (Inr (s', b', False)) \<Longrightarrow> b' = b"
            by (rule Suc.IH)
          show "cell board row col = Inr 0" by (rule c)
          show "try_values (solve_simple fuel expired) s1 board row col (value_range s1)
                = Some (Inr (s', board', False))" by (rule t)
        qed
      qed
    qed
  qed
qed

lemma solve_with_mrv_frame:
  "solve_with_mrv fuel expired s board = Some (Inr (s', board', False)) \<Longrightarrow> board' = board"
proof (induction fuel arbitrary: s board s' board')
  case 0
  then show ?case by simp
next
  case (Suc fuel)
  show ?case
  proof (cases "expired (clock_reads s)")
    case True
    with Suc.prems show ?thesis by simp
  next
    case False
    define s1 where "s1 = s\<lparr>clock_reads := Suc (clock_reads s),
                             recursive_calls := Suc (recursive_calls s)\<rparr>"
    show ?thesis
    proof (cases "find_best_empty s1 board")
      case (Inl e)
      with Suc.prems False show ?thesis by (simp add: s1_def)
    next
      case (Inr found)
      show ?thesis
      proof (cases found)
        case None
        with Suc.prems False Inr show ?thesis by (simp add: s1_def)
      next
        case (Some t)
        obtain row col ps where t: "t = (row, col, ps)" by (cases t)
        from Inr Some t have c: "cell board row col = Inr 0"
          using find_best_from_Some[of s1 board None _ _ row col ps]
          by (simp add: find_best_empty_def)
        from Suc.prems False Inr Some t
        have "try_values (solve_with_mrv fuel expired) s1 board row col ps
                = Some (Inr (s', board', False))" by (simp add: s1_def Let_def)
        then have t: "try_values (solve_with_mrv fuel expired) s1 board row col ps
                = Some (Inr (s', board', False))" .
        show ?thesis
        proof (rule try_values_frame[of "solve_with_mrv fuel expired" board row col])
          show "\<And>s b s' b'. solve_with_mrv fuel expired s b = Some (Inr (s', b', False)) \<Longrightarrow> b' = b"
            by (rule Suc.IH)
          show "cell board row col = Inr 0" by (rule c)
          show "try_values (solve_with_mrv fuel expired) s1 board row col ps
                = Some (Inr (s', board', False))" by (rule t)
        qed
      qed
    qed
  qed
qed

lemma measure_performance_frame:
  assumes "measure_performance fuel expired s board use_mrv = Some (Inr (s', board', False, n))"
  shows "board' = board"
proof -
  define s0 where "s0 = s\<lparr>recursive_calls := 0, time_limit_exceeded := False\<rparr>"
  show ?thesis
  proof (cases "validate_board s0 board")
    case (Inl e)
    with assms show ?thesis by (simp add: measure_performance_def s0_def)
  next
    case (Inr t)
    obtain bc ok msg where t: "t = (bc, ok, msg)" by (cases t)
    show ?thesis
    proof (cases ok)
      case False
      with assms Inr t show ?thesis by (simp add: measure_performance_def s0_def)
    next
      case True
      with assms Inr t show ?thesis
        by (auto simp: measure_performance_def s0_def Let_def
            split: option.splits sum.splits if_splits prod.splits)
    qed
  qed
qed

text \<open>
  Claim C3. When a solver returns \<open>False\<close> and the time limit was not exceeded, the board
  is exactly the board at entry to that call: every assignment made below it has been
  reset to \<open>0\<close>. This holds for \<open>solve_simple\<close> and \<open>solve_with_mrv\<close> on every board
  and at every depth, and \<open>measure_performance\<close> hands the caller's board back
  unchanged.
\<close>

theorem exhausted_restores_board:
  "(solve_simple fuel expired s board = Some (Inr (s', board', False)) \<and>
      \<not> time_limit_exceeded s' \<longrightarrow> board' = board) \<and>
   (solve_with_mrv fuel expired s board = Some (Inr (s', board', False)) \<and>
      \<not> time_limit_exceeded s' \<longrightarrow> board' = board) \<and>
   (measure_performance fuel expired s board use_mrv = Some (Inr (s', board', False, n)) \<and>
      \<not> time_limit_exceeded s' \<longrightarrow> board' = board)"
  using solve_simple_frame[of fuel expired s board s' board']
    solve_with_mrv_frame[of fuel expired s board s' board']
    measure_performance_frame[of fuel expired s board use_mrv s' board' n]
  by blast

theorem exhausted_restores_board_witness:
  "solve_simple 17 never_expired solver4 stuck4 =
     Some (Inr (solver4\<lparr>recursive_calls := 2, clock_reads := 2\<rparr>, stuck4, False)) \<and>
   solve_with_mrv 17 never_expired solver4 stuck4 =
     Some (Inr (solver4\<lparr>recursive_calls := 2, clock_reads := 2\<rparr>, stuck4, False)) \<and>
   measure_performance 17 never_expired solver4 stuck4 True =
     Some (Inr (solver4\<lparr>recursive_calls := 2, clock_reads := 2\<rparr>, stuck4, False, 2))"
proof -
  have a: "solve_simple 17 never_expired solver4 stuck4 =
     Some (Inr (solver4\<lparr>recursive_calls := 2, clock_reads := 2\<rparr>, stuck4, False))"
    by code_simp
  have b: "solve_with_mrv 17 never_expired solver4 stuck4 =
     Some (Inr (solver4\<lparr>recursive_calls := 2, clock_reads := 2\<rparr>, stuck4, False))"
    by code_simp
  have c: "measure_performance 17 never_expired solver4 stuck4 True =
     Some (Inr (solver4\<lparr>recursive_calls := 2, clock_reads := 2\<rparr>, stuck4, False, 2))"
    by code_simp
  have "\<not> time_limit_exceeded (solver4\<lparr>recursive_calls := 2, clock_reads := 2\<rparr>)"
    by (simp add: solver4_def)
  with a b c
    exhausted_restores_board[of 17 never_expired solver4 stuck4
      "solver4\<lparr>recursive_calls := 2, clock_reads := 2\<rparr>" stuck4 True 2]
  show ?thesis by simp
qed

text \<open>
  Claim C2, as the code has it. A call that finds the deadline exceeded sets
  \<open>time_limit_exceeded\<close> and returns \<open>False\<close>, the same value as a dead end; there is no
  third outcome. Each enclosing call therefore resets its cell to \<open>0\<close> and goes on with
  its remaining values, so a solver that returns \<open>False\<close> with the flag set leaves the
  board as it was at entry, and \<open>measure_performance\<close> hands the caller's board back
  unchanged.
\<close>

theorem timeout_restores_board:
  "(expired (clock_reads s) \<longrightarrow>
      solve_simple (Suc fuel) expired s board =
        Some (Inr (s\<lparr>clock_reads := Suc (clock_reads s), time_limit_exceeded := True\<rparr>,
                   board, False)) \<and>
      solve_with_mrv (Suc fuel) expired s board =
        Some (Inr (s\<lparr>clock_reads := Suc (clock_reads s), time_limit_exceeded := True\<rparr>,
                   board, False))) \<and>
   (solve_simple fuel expired s board = Some (Inr (s', board', False)) \<and>
      time_limit_exceeded s' \<longrightarrow> board' = board) \<and>
   (solve_with_mrv fuel expired s board = Some (Inr (s', board', False)) \<and>
      time_limit_exceeded s' \<longrightarrow> board' = board) \<and>
   (measure_performance fuel expired s board use_mrv = Some (Inr (s', board', False, n)) \<and>
      time_limit_exceeded s' \<longrightarrow> board' = board)"
  using solve_simple_frame[of fuel expired s board s' board']
    solve_with_mrv_frame[of fuel expired s board s' board']
    measure_performance_frame[of fuel expired s board use_mrv s' board' n]
  by simp

theorem timeout_restores_board_witness:
  "solve_with_mrv 17 (expired_from 1) solver4 board4 =
     Some (Inr (solver4\<lparr>recursive_calls := 1, time_limit_exceeded := True,
                         clock_reads := 2\<rparr>, board4, False)) \<and>
   solve_simple 1 (expired_from 0) solver4 board4 =
     Some (Inr (solver4\<lparr>clock_reads := 1, time_limit_exceeded := True\<rparr>, board4, False))"
proof -
  have a: "solve_with_mrv 17 (expired_from 1) solver4 board4 =
     Some (Inr (solver4\<lparr>recursive_calls := 1, time_limit_exceeded := True,
                         clock_reads := 2\<rparr>, board4, False))"
    by code_simp
  have e: "expired_from 0 (clock_reads solver4)" by (simp add: expired_from_def)
  have t: "time_limit_exceeded (solver4\<lparr>recursive_calls := 1, time_limit_exceeded := True,
                         clock_reads := 2\<rparr>)" by simp
  from a e t
    timeout_restores_board[of "expired_from 0" solver4 0 board4]
    timeout_restores_board[of "expired_from 1" solver4 16 board4
      "solver4\<lparr>recursive_calls := 1, time_limit_exceeded := True, clock_reads := 2\<rparr>" board4]
  show ?thesis by (simp add: solver4_def)
qed

theorem timeout_is_rolled_back:
  "solve_simple 17 (expired_from 3) solver4 board4 =
     Some (Inr (solver4\<lparr>recursive_calls := 3, time_limit_exceeded := True,
                         clock_reads := 5\<rparr>, board4, False)) \<and>
   measure_performance 17 (expired_from 3) solver4 board4 False =
     Some (Inr (solver4\<lparr>recursive_calls := 3, time_limit_exceeded := True,
                         clock_reads := 5\<rparr>, board4, False, 3))"
proof -
  have a: "solve_simple 17 (expired_from 3) solver4 board4 =
     Some (Inr (solver4\<lparr>recursive_calls := 3, time_limit_exceeded := True,
                         clock_reads := 5\<rparr>, board4, False))"
    by code_simp
  have b: "measure_performance 17 (expired_from 3) solver4 board4 False =
     Some (Inr (solver4\<lparr>recursive_calls := 3, time_limit_exceeded := True,
                         clock_reads := 5\<rparr>, board4, False, 3))"
    by code_simp
  from a b show ?thesis by simp
qed

section \<open>Properties of the candidate selectors\<close>

lemma possible_list_eq:
  assumes "square_config s" and "well_formed s board" and "in_grid s (i, j)"
  shows "possible_list s board i j nums
           = Inr (filter (\<lambda>num. \<not> occurs_elsewhere s board i j num) nums)"
proof -
  from assms(3) have ij: "i < size_n s" "j < size_n s" by (simp_all add: in_grid_def)
  show ?thesis
    by (induction nums) (simp_all add: is_valid_eq[OF assms(1,2) ij])
qed

lemma find_empty_from_eq:
  assumes "well_formed s board" and "\<forall>p \<in> set cells. in_grid s p"
  shows "find_empty_from board cells = Inr (find (empty_at board) cells)"
  using assms(2)
proof (induction cells)
  case Nil
  show ?case by simp
next
  case (Cons p cells)
  obtain i j where p: "p = (i, j)" by (cases p)
  from Cons.prems have ij: "i < size_n s" "j < size_n s" by (simp_all add: p in_grid_def)
  from Cons have IH: "find_empty_from board cells = Inr (find (empty_at board) cells)"
    by simp
  have e: "empty_at board (i, j) \<longleftrightarrow> board ! i ! j = 0" by (simp add: empty_at_def)
  show ?case
    by (simp add: p cell_well_formed[OF assms(1) ij] IH e)
qed

lemma find_empty_eq:
  assumes "well_formed s board"
  shows "find_empty s board = Inr (find (empty_at board) (all_cells (size_n s)))"
  unfolding find_empty_def
  by (rule find_empty_from_eq[OF assms]) (simp add: set_all_cells in_grid_def)

lemma picked_skip:
  "\<not> empty_at board p \<Longrightarrow> picked s board m pre q post \<Longrightarrow> picked s board m (p # pre) q post"
  by (simp add: picked_def)

lemma picked_keep:
  "m \<le> options s board p \<Longrightarrow> picked s board m pre q post \<Longrightarrow>
     picked s board m (p # pre) q post"
  by (auto simp: picked_def)

lemma picked_better:
  assumes "options s board p < m" and "options s board p \<noteq> 1"
    and "picked s board (options s board p) pre q post"
  shows "picked s board m (p # pre) q post"
proof -
  let ?k = "options s board p" and ?o = "options s board"
  from assms(3) have e: "empty_at board q" and lt: "?o q < ?k"
    and pre: "\<forall>p' \<in> set pre. empty_at board p' \<longrightarrow> ?o q < ?o p' \<and> (?o p' < ?k \<longrightarrow> ?o p' \<noteq> 1)"
    and post: "?o q = 1 \<or> (\<forall>p' \<in> set post. empty_at board p' \<longrightarrow> ?o q \<le> ?o p')"
    by (simp_all add: picked_def)
  have "?o q < ?o p' \<and> (?o p' < m \<longrightarrow> ?o p' \<noteq> 1)"
    if "p' \<in> set (p # pre)" and "empty_at board p'" for p'
  proof (cases "p' = p")
    case True
    with lt assms(2) show ?thesis by simp
  next
    case False
    with that pre have a: "?o q < ?o p'" and b: "?o p' < ?k \<longrightarrow> ?o p' \<noteq> 1" by auto
    have "?o p' \<noteq> 1"
    proof
      assume one: "?o p' = 1"
      with b have "?k \<le> 1" by simp
      with assms(2) have "?k = 0" by simp
      with lt show False by simp
    qed
    with a show ?thesis by simp
  qed
  with e lt assms(1) post show ?thesis
    unfolding picked_def by (meson less_trans)
qed

lemma picked_here:
  assumes "empty_at board p" and "options s board p < m"
    and "options s board p = 1 \<or>
         (\<forall>p' \<in> set post. empty_at board p' \<longrightarrow> options s board p \<le> options s board p')"
  shows "picked s board m [] p post"
  using assms by (simp add: picked_def)

lemma find_best_from_spec:
  assumes sq: "square_config s" and wf: "well_formed s board"
    and cells: "\<forall>p \<in> set cells. in_grid s p"
  shows "\<exists>r. find_best_from s board best m cells = Inr r \<and>
           ((r = best \<and> (\<forall>p \<in> set cells. empty_at board p \<longrightarrow> m \<le> options s board p)) \<or>
            (\<exists>pre q post. cells = pre @ q # post \<and>
               r = Some (fst q, snd q, candidates s board q) \<and>
               picked s board m pre q post))"
  using cells
proof (induction cells arbitrary: best m)
  case Nil
  show ?case by simp
next
  case (Cons p cells)
  obtain i j where p: "p = (i, j)" by (cases p)
  from Cons.prems have g: "in_grid s (i, j)" by (simp add: p)
  then have ij: "i < size_n s" "j < size_n s" by (simp_all add: in_grid_def)
  from Cons.prems have rest: "\<forall>p \<in> set cells. in_grid s p" by simp
  note IH = Cons.IH[OF rest]
  have c: "cell board i j = Inr (board ! i ! j)" by (rule cell_well_formed[OF wf ij])
  have e: "empty_at board p \<longleftrightarrow> board ! i ! j = 0" by (simp add: empty_at_def p)
  have pl: "possible_list s board i j (value_range s) = Inr (candidates s board (i, j))"
    by (simp add: possible_list_eq[OF sq wf g] candidates_def)
  define k where "k = options s board p"
  have len: "length (candidates s board (i, j)) = k" by (simp add: k_def options_def p)
  have fin: ?case
    if "find_best_from s board best m (p # cells) = Inr r"
      and "p # cells = pre @ q # post"
      and "r = Some (fst q, snd q, candidates s board q)"
      and "picked s board m pre q post" for r pre q post
    by (intro exI[of _ r] conjI disjI2 exI[of _ pre] exI[of _ q] exI[of _ post])
      (use that in simp_all)
  consider (filled) "\<not> empty_at board p"
    | (stop) "empty_at board p" "k < m" "k = 1"
    | (better) "empty_at board p" "k < m" "k \<noteq> 1"
    | (keep) "empty_at board p" "\<not> k < m" by blast
  then show ?case
  proof cases
    case filled
    then have step: "find_best_from s board best m (p # cells)
                       = find_best_from s board best m cells"
      using e by (simp add: p c)
    from IH[of best m] obtain r where r: "find_best_from s board best m cells = Inr r"
      and d: "(r = best \<and> (\<forall>p \<in> set cells. empty_at board p \<longrightarrow> m \<le> options s board p)) \<or>
            (\<exists>pre q post. cells = pre @ q # post \<and>
               r = Some (fst q, snd q, candidates s board q) \<and>
               picked s board m pre q post)" by blast
    from d show ?thesis
    proof
      assume "r = best \<and> (\<forall>p \<in> set cells. empty_at board p \<longrightarrow> m \<le> options s board p)"
      with filled step r show ?thesis by auto
    next
      assume "\<exists>pre q post. cells = pre @ q # post \<and>
               r = Some (fst q, snd q, candidates s board q) \<and>
               picked s board m pre q post"
      then obtain pre q post where x: "cells = pre @ q # post"
        "r = Some (fst q, snd q, candidates s board q)" "picked s board m pre q post"
        by blast
      have "p # cells = (p # pre) @ q # post" using x(1) by simp
      moreover note x(2) picked_skip[OF filled x(3)]
      moreover have "find_best_from s board best m (p # cells) = Inr r" using step r by simp
      ultimately show ?thesis using fin by blast
    qed
  next
    case stop
    then have step: "find_best_from s board best m (p # cells)
                       = Inr (Some (i, j, candidates s board p))"
      using e by (simp add: p c pl len)
    have "picked s board m [] p cells"
      by (rule picked_here) (use stop in \<open>simp_all add: k_def\<close>)
    moreover have "p # cells = [] @ p # cells" by simp
    moreover have "Some (i, j, candidates s board p)
                     = Some (fst p, snd p, candidates s board p)" by (simp add: p)
    ultimately show ?thesis using step fin by blast
  next
    case better
    then have step: "find_best_from s board best m (p # cells)
        = find_best_from s board (Some (i, j, candidates s board p)) k cells"
      using e by (simp add: p c pl len)
    from IH[of "Some (i, j, candidates s board p)" k] obtain r
      where r: "find_best_from s board (Some (i, j, candidates s board p)) k cells = Inr r"
      and d: "(r = Some (i, j, candidates s board p) \<and>
                (\<forall>p \<in> set cells. empty_at board p \<longrightarrow> k \<le> options s board p)) \<or>
            (\<exists>pre q post. cells = pre @ q # post \<and>
               r = Some (fst q, snd q, candidates s board q) \<and>
               picked s board k pre q post)" by blast
    from d show ?thesis
    proof
      assume a: "r = Some (i, j, candidates s board p) \<and>
                (\<forall>p \<in> set cells. empty_at board p \<longrightarrow> k \<le> options s board p)"
      have "picked s board m [] p cells"
        by (rule picked_here) (use better a in \<open>simp_all add: k_def\<close>)
      moreover have "p # cells = [] @ p # cells" by simp
      moreover have "r = Some (fst p, snd p, candidates s board p)" using a by (simp add: p)
      moreover have "find_best_from s board best m (p # cells) = Inr r" using step r by simp
      ultimately show ?thesis using fin by blast
    next
      assume "\<exists>pre q post. cells = pre @ q # post \<and>
               r = Some (fst q, snd q, candidates s board q) \<and>
               picked s board k pre q post"
      then obtain pre q post where x: "cells = pre @ q # post"
        "r = Some (fst q, snd q, candidates s board q)" "picked s board k pre q post"
        by blast
      have "p # cells = (p # pre) @ q # post" using x(1) by simp
      moreover have "picked s board m (p # pre) q post"
        by (rule picked_better) (use better x(3) in \<open>simp_all add: k_def\<close>)
      moreover have "find_best_from s board best m (p # cells) = Inr r" using step r by simp
      ultimately show ?thesis using fin x(2) by blast
    qed
  next
    case keep
    then have step: "find_best_from s board best m (p # cells)
                       = find_best_from s board best m cells"
      using e by (simp add: p c pl len)
    from keep have mk: "m \<le> options s board p" by (simp add: k_def)
    from IH[of best m] obtain r where r: "find_best_from s board best m cells = Inr r"
      and d: "(r = best \<and> (\<forall>p \<in> set cells. empty_at board p \<longrightarrow> m \<le> options s board p)) \<or>
            (\<exists>pre q post. cells = pre @ q # post \<and>
               r = Some (fst q, snd q, candidates s board q) \<and>
               picked s board m pre q post)" by blast
    from d show ?thesis
    proof
      assume "r = best \<and> (\<forall>p \<in> set cells. empty_at board p \<longrightarrow> m \<le> options s board p)"
      with mk step r show ?thesis by auto
    next
      assume "\<exists>pre q post. cells = pre @ q # post \<and>
               r = Some (fst q, snd q, candidates s board q) \<and>
               picked s board m pre q post"
      then obtain pre q post where x: "cells = pre @ q # post"
        "r = Some (fst q, snd q, candidates s board q)" "picked s board m pre q post"
        by blast
      have "p # cells = (p # pre) @ q # post" using x(1) by simp
      moreover note x(2) picked_keep[OF mk x(3)]
      moreover have "find_best_from s board best m (p # cells) = Inr r" using step r by simp
      ultimately show ?thesis using fin by blast
    qed
  qed
qed

lemma sorted_all_cells: "sorted_wrt before (all_cells n)"
proof (cases "n = 0")
  case True
  then show ?thesis by (simp add: all_cells_def)
next
  case False
  then have n0: "0 < n" by simp
  show ?thesis
    unfolding sorted_wrt_iff_nth_less length_all_cells
    using before_index[OF n0] by (auto simp: all_cells_nth)
qed

lemma before_asym: "before p q \<Longrightarrow> \<not> before q p"
  by (auto simp: before_def)

lemma all_cells_split:
  assumes "all_cells n = pre @ q # post"
  shows "p \<in> set pre \<longleftrightarrow> fst p < n \<and> snd p < n \<and> before p q"
    and "p \<in> set post \<longleftrightarrow> fst p < n \<and> snd p < n \<and> before q p"
proof -
  have s: "sorted_wrt before (pre @ q # post)"
    using sorted_all_cells[of n] assms by simp
  then have pre: "\<forall>x \<in> set pre. before x q" and post: "\<forall>y \<in> set post. before q y"
    and cross: "\<forall>x \<in> set pre. \<forall>y \<in> set post. before x y"
    by (auto simp: sorted_wrt_append)
  have mem: "\<And>x. x \<in> set pre \<or> x = q \<or> x \<in> set post \<longleftrightarrow> fst x < n \<and> snd x < n"
    using set_all_cells[of _ n] assms by auto
  show "p \<in> set pre \<longleftrightarrow> fst p < n \<and> snd p < n \<and> before p q"
    using pre post mem[of p] before_asym[of p q] before_asym[of p p] by blast
  show "p \<in> set post \<longleftrightarrow> fst p < n \<and> snd p < n \<and> before q p"
    using pre post mem[of p] before_asym[of p q] before_asym[of p p] by blast
qed

lemma set_value_range: "set (value_range s) = {v. 1 \<le> v \<and> v \<le> int (size_n s)}"
proof (rule set_eqI)
  fix v :: int
  have "v \<in> int ` {1..<Suc (size_n s)} \<longleftrightarrow> 1 \<le> v \<and> v \<le> int (size_n s)"
  proof
    assume "v \<in> int ` {1..<Suc (size_n s)}"
    then show "1 \<le> v \<and> v \<le> int (size_n s)" by auto
  next
    assume a: "1 \<le> v \<and> v \<le> int (size_n s)"
    then have "nat v \<in> {1..<Suc (size_n s)}" by auto
    moreover have "v = int (nat v)" using a by simp
    ultimately show "v \<in> int ` {1..<Suc (size_n s)}" by (rule rev_image_eqI)
  qed
  then show "v \<in> set (value_range s) \<longleftrightarrow> v \<in> {v. 1 \<le> v \<and> v \<le> int (size_n s)}"
    by (simp add: value_range_def del: upt_Suc)
qed

lemma options_le: "options s board p \<le> size_n s"
proof -
  have "length (candidates s board p) \<le> length (value_range s)"
    unfolding candidates_def by (rule length_filter_le)
  then show ?thesis by (simp add: options_def value_range_def del: upt_Suc)
qed

lemma candidates_props:
  "sorted (candidates s board p)" "distinct (candidates s board p)"
  "set (candidates s board p) =
     {v. 1 \<le> v \<and> v \<le> int (size_n s) \<and> \<not> occurs_elsewhere s board (fst p) (snd p) v}"
proof -
  have "sorted (value_range s)"
    by (simp add: value_range_def sorted_map del: upt_Suc)
  then show "sorted (candidates s board p)"
    unfolding candidates_def by (rule sorted_wrt_filter)
  have "distinct (value_range s)"
    by (simp add: value_range_def distinct_map del: upt_Suc)
  then show "distinct (candidates s board p)"
    unfolding candidates_def by (rule distinct_filter)
  have "set (value_range s) = {v. 1 \<le> v \<and> v \<le> int (size_n s)}"
    by (rule set_value_range)
  then show "set (candidates s board p) =
     {v. 1 \<le> v \<and> v \<le> int (size_n s) \<and> \<not> occurs_elsewhere s board (fst p) (snd p) v}"
    unfolding candidates_def by auto
qed

lemma find_best_empty_spec:
  assumes sq: "square_config s" and wf: "well_formed s board"
  shows "(find_best_empty s board = Inr None \<and> (\<forall>p. in_grid s p \<longrightarrow> \<not> empty_at board p)) \<or>
         (\<exists>q. find_best_empty s board = Inr (Some (fst q, snd q, candidates s board q)) \<and>
              in_grid s q \<and> empty_at board q \<and>
              (\<forall>p. in_grid s p \<and> empty_at board p \<and> before p q \<longrightarrow>
                   options s board q < options s board p \<and> 2 \<le> options s board p) \<and>
              (options s board q = 1 \<or>
               (\<forall>p. in_grid s p \<and> empty_at board p \<longrightarrow>
                    options s board q \<le> options s board p)))"
proof -
  let ?n = "size_n s" and ?o = "options s board"
  have cells: "\<forall>p \<in> set (all_cells ?n). in_grid s p"
    by (simp add: set_all_cells in_grid_def)
  from find_best_from_spec[OF sq wf cells, of None "?n + 1"]
  obtain r where r: "find_best_empty s board = Inr r"
    and d: "(r = None \<and> (\<forall>p \<in> set (all_cells ?n). empty_at board p \<longrightarrow> ?n + 1 \<le> ?o p)) \<or>
            (\<exists>pre q post. all_cells ?n = pre @ q # post \<and>
               r = Some (fst q, snd q, candidates s board q) \<and>
               picked s board (?n + 1) pre q post)"
    unfolding find_best_empty_def by blast
  from d show ?thesis
  proof
    assume a: "r = None \<and> (\<forall>p \<in> set (all_cells ?n). empty_at board p \<longrightarrow> ?n + 1 \<le> ?o p)"
    have "\<not> empty_at board p" if "in_grid s p" for p
    proof
      assume "empty_at board p"
      moreover from that have "p \<in> set (all_cells ?n)" by (simp add: set_all_cells in_grid_def)
      ultimately have "?n + 1 \<le> ?o p" using a by blast
      with options_le[of s board p] show False by simp
    qed
    with a r show ?thesis by blast
  next
    assume "\<exists>pre q post. all_cells ?n = pre @ q # post \<and>
               r = Some (fst q, snd q, candidates s board q) \<and>
               picked s board (?n + 1) pre q post"
    then obtain pre q post where split: "all_cells ?n = pre @ q # post"
      and rq: "r = Some (fst q, snd q, candidates s board q)"
      and pk: "picked s board (?n + 1) pre q post" by blast
    note mem = all_cells_split[OF split]
    from pk have e: "empty_at board q"
      and pre: "\<forall>p \<in> set pre. empty_at board p \<longrightarrow>
                  ?o q < ?o p \<and> (?o p < ?n + 1 \<longrightarrow> ?o p \<noteq> 1)"
      and post: "?o q = 1 \<or> (\<forall>p \<in> set post. empty_at board p \<longrightarrow> ?o q \<le> ?o p)"
      by (simp_all add: picked_def)
    have "q \<in> set (all_cells ?n)" using split by simp
    then have g: "in_grid s q" by (simp add: set_all_cells in_grid_def)
    have earlier: "?o q < ?o p \<and> 2 \<le> ?o p"
      if "in_grid s p \<and> empty_at board p \<and> before p q" for p
    proof -
      from that have "p \<in> set pre" by (simp add: mem(1) in_grid_def)
      with pre that have a: "?o q < ?o p" and b: "?o p < ?n + 1 \<longrightarrow> ?o p \<noteq> 1" by auto
      from options_le[of s board p] b have "?o p \<noteq> 1" by simp
      with a show ?thesis by simp
    qed
    have least: "?o q \<le> ?o p"
      if all: "\<forall>p \<in> set post. empty_at board p \<longrightarrow> ?o q \<le> ?o p"
        and p: "in_grid s p \<and> empty_at board p" for p
    proof -
      from p have "p \<in> set (all_cells ?n)" by (simp add: set_all_cells in_grid_def)
      then consider "p \<in> set pre" | "p = q" | "p \<in> set post" using split by auto
      then show ?thesis
      proof cases
        case 1
        with pre p show ?thesis by auto
      next
        case 2
        then show ?thesis by simp
      next
        case 3
        with all p show ?thesis by auto
      qed
    qed
    have "?o q = 1 \<or> (\<forall>p. in_grid s p \<and> empty_at board p \<longrightarrow> ?o q \<le> ?o p)"
      using post least by blast
    with r rq g e earlier show ?thesis by blast
  qed
qed

text \<open>
  Claim C5, as the code has it. On a well-formed board of a square configuration
  \<open>find_best_empty\<close> returns \<open>None\<close> exactly when no cell is empty. Otherwise it returns
  an empty cell with its candidate set, which is ascending and may be empty. The
  minimum it tracks counts a cell without candidates as well: every empty cell before
  the returned one in row-major order has more candidates than it and at least two,
  and either the returned cell has exactly one candidate (the scan stopped there) or
  no empty cell of the grid has fewer candidates. So the cell is the first one with at
  most one candidate when there is one, and the first one with the fewest otherwise.
\<close>

theorem find_best_empty_choice:
  assumes "square_config s" and "well_formed s board"
  shows "(\<exists>r. find_best_empty s board = Inr r) \<and>
         (find_best_empty s board = Inr None \<longleftrightarrow> (\<forall>p. in_grid s p \<longrightarrow> \<not> empty_at board p)) \<and>
         (find_best_empty s board = Inr (Some (i, j, ps)) \<longrightarrow>
            in_grid s (i, j) \<and> empty_at board (i, j) \<and>
            ps = candidates s board (i, j) \<and> sorted ps \<and> distinct ps \<and>
            set ps = {v. 1 \<le> v \<and> v \<le> int (size_n s) \<and> \<not> occurs_elsewhere s board i j v} \<and>
            (\<forall>p. in_grid s p \<and> empty_at board p \<and> before p (i, j) \<longrightarrow>
                 length ps < options s board p \<and> 2 \<le> options s board p) \<and>
            (length ps = 1 \<or>
             (\<forall>p. in_grid s p \<and> empty_at board p \<longrightarrow> length ps \<le> options s board p)))"
proof -
  let ?o = "options s board"
  from find_best_empty_spec[OF assms]
  consider (none) "find_best_empty s board = Inr None"
      "\<forall>p. in_grid s p \<longrightarrow> \<not> empty_at board p"
    | (some) q where "find_best_empty s board = Inr (Some (fst q, snd q, candidates s board q))"
      "in_grid s q" "empty_at board q"
      "\<forall>p. in_grid s p \<and> empty_at board p \<and> before p q \<longrightarrow> ?o q < ?o p \<and> 2 \<le> ?o p"
      "?o q = 1 \<or> (\<forall>p. in_grid s p \<and> empty_at board p \<longrightarrow> ?o q \<le> ?o p)"
    by blast
  then show ?thesis
  proof cases
    case none
    then show ?thesis by simp
  next
    case some
    have 1: "\<exists>r. find_best_empty s board = Inr r" using some(1) by simp
    have 2: "find_best_empty s board = Inr None \<longleftrightarrow> (\<forall>p. in_grid s p \<longrightarrow> \<not> empty_at board p)"
    proof
      assume "find_best_empty s board = Inr None"
      with some(1) show "\<forall>p. in_grid s p \<longrightarrow> \<not> empty_at board p" by simp
    next
      assume "\<forall>p. in_grid s p \<longrightarrow> \<not> empty_at board p"
      with some(2,3) show "find_best_empty s board = Inr None" by blast
    qed
    have 3: "in_grid s (i, j) \<and> empty_at board (i, j) \<and>
            ps = candidates s board (i, j) \<and> sorted ps \<and> distinct ps \<and>
            set ps = {v. 1 \<le> v \<and> v \<le> int (size_n s) \<and> \<not> occurs_elsewhere s board i j v} \<and>
            (\<forall>p. in_grid s p \<and> empty_at board p \<and> before p (i, j) \<longrightarrow>
                 length ps < ?o p \<and> 2 \<le> ?o p) \<and>
            (length ps = 1 \<or>
             (\<forall>p. in_grid s p \<and> empty_at board p \<longrightarrow> length ps \<le> ?o p))"
      if "find_best_empty s board = Inr (Some (i, j, ps))"
    proof -
      from that some(1) have q: "q = (i, j)" by (simp add: prod_eq_iff)
      from that some(1) have ps: "ps = candidates s board (i, j)" by (simp add: q)
      have len: "length ps = ?o (i, j)" by (simp add: ps options_def)
      show ?thesis
        using some(2-5) candidates_props[of s board "(i, j)"]
        unfolding q len by (simp add: ps)
    qed
    from 1 2 3 show ?thesis by blast
  qed
qed

theorem find_best_empty_choice_witness:
  "find_best_empty solver4 board4 = Inr (Some (0, 3, [2])) \<and>
   empty_at board4 (0, 3) \<and> candidates solver4 board4 (0, 3) = [2]"
proof -
  have sq: "square_config solver4" by (simp add: square_config_def solver4_def)
  have wf: "well_formed solver4 board4"
    by (simp add: well_formed_def solver4_def board4_def)
  have v: "find_best_empty solver4 board4 = Inr (Some (0, 3, [2]))" by code_simp
  from find_best_empty_choice[OF sq wf, of 0 3 "[2]"] v show ?thesis by simp
qed

theorem find_best_empty_takes_zero:
  "find_best_empty solver4 zero4 = Inr (Some (0, 0, [])) \<and>
   possible_list solver4 zero4 0 3 (value_range solver4) = Inr [3, 4]"
proof -
  have "find_best_empty solver4 zero4 = Inr (Some (0, 0, []))" by code_simp
  moreover have "possible_list solver4 zero4 0 3 (value_range solver4) = Inr [3, 4]"
    by code_simp
  ultimately show ?thesis by simp
qed

section \<open>The search decides solvability\<close>

lemma same_config_refl: "same_config s s"
  by (simp add: same_config_def)

lemma same_config_trans: "same_config s s1 \<Longrightarrow> same_config s1 s2 \<Longrightarrow> same_config s s2"
  by (simp add: same_config_def)

lemma same_config_tick:
  "same_config s s1 \<Longrightarrow>
     same_config s (s1\<lparr>clock_reads := a, recursive_calls := b\<rparr>)"
  by (simp add: same_config_def)

lemma config_is_valid:
  assumes "same_config s s1"
  shows "is_valid s1 board row col num = is_valid s board row col num"
proof -
  from assms have e: "size_n s1 = size_n s" "subgrid_size s1 = subgrid_size s"
    by (simp_all add: same_config_def)
  show ?thesis unfolding is_valid_def box_cells_def e by (rule refl)
qed

lemma config_value_range: "same_config s s1 \<Longrightarrow> value_range s1 = value_range s"
  by (simp add: same_config_def value_range_def)

lemma config_square: "same_config s s1 \<Longrightarrow> square_config s1 = square_config s"
  by (simp add: same_config_def square_config_def)

lemma config_well_formed: "same_config s s1 \<Longrightarrow> well_formed s1 board = well_formed s board"
  by (simp add: same_config_def well_formed_def)

lemma config_in_grid: "same_config s s1 \<Longrightarrow> in_grid s1 p = in_grid s p"
  by (simp add: same_config_def in_grid_def)

lemma config_occurs:
  "same_config s s1 \<Longrightarrow> occurs_elsewhere s1 board row col num = occurs_elsewhere s board row col num"
  by (simp add: same_config_def occurs_elsewhere_def same_box_def)

lemma config_candidates: "same_config s s1 \<Longrightarrow> candidates s1 board p = candidates s board p"
  by (simp add: candidates_def config_occurs config_value_range)

lemma finite_empty_cells: "finite (empty_cells s board)"
proof -
  have "empty_cells s board \<subseteq> {..<size_n s} \<times> {..<size_n s}"
    by (auto simp: empty_cells_def in_grid_def)
  then show ?thesis by (rule finite_subset) simp
qed

lemma card_empty_cells_le: "card (empty_cells s board) \<le> size_n s * size_n s"
proof -
  have "empty_cells s board \<subseteq> {..<size_n s} \<times> {..<size_n s}"
    by (auto simp: empty_cells_def in_grid_def)
  then have "card (empty_cells s board) \<le> card ({..<size_n s} \<times> {..<size_n s})"
    by (rule card_mono[rotated]) simp
  then show ?thesis by simp
qed

lemma empty_at_assigned:
  assumes "well_formed s board" and "in_grid s (row, col)" and "in_grid s p"
  shows "empty_at (assigned board row col num) p \<longleftrightarrow>
           (if p = (row, col) then num = 0 else empty_at board p)"
proof -
  obtain i j where p: "p = (i, j)" by (cases p)
  show ?thesis
    using nth_assigned[OF assms(1,2), of i j num] assms(3)
    by (simp add: p empty_at_def)
qed

lemma card_empty_cells_assigned:
  assumes wf: "well_formed s board" and g: "in_grid s (row, col)"
    and e: "empty_at board (row, col)" and n: "num \<noteq> 0"
    and c: "card (empty_cells s board) \<le> Suc k"
  shows "card (empty_cells s (assigned board row col num)) \<le> k"
proof -
  have "empty_cells s (assigned board row col num) = empty_cells s board - {(row, col)}"
    using empty_at_assigned[OF wf g] n by (auto simp: empty_cells_def split: if_splits)
  moreover have "(row, col) \<in> empty_cells s board" using g e by (simp add: empty_cells_def)
  ultimately have "card (empty_cells s (assigned board row col num))
      = card (empty_cells s board) - 1"
    by (simp add: finite_empty_cells)
  with c show ?thesis by simp
qed

lemma no_empty_cells:
  "card (empty_cells s board) = 0 \<longleftrightarrow> complete s board"
proof -
  have "card (empty_cells s board) = 0 \<longleftrightarrow> empty_cells s board = {}"
    by (simp add: finite_empty_cells)
  also have "\<dots> \<longleftrightarrow> complete s board"
    unfolding empty_cells_def complete_def by blast
  finally show ?thesis .
qed

lemma same_box_sym: "same_box s p q \<Longrightarrow> same_box s q p"
  by (simp add: same_box_def)

lemma nth_assigned_same:
  assumes "well_formed s board" and "in_grid s (i, j)"
  shows "assigned board i j v ! i ! j = v"
  using nth_assigned[OF assms assms(2)] by simp

lemma nth_assigned_other:
  assumes "well_formed s board" and "in_grid s (i, j)" and "in_grid s (i', j')"
    and "(i', j') \<noteq> (i, j)"
  shows "assigned board i j v ! i' ! j' = board ! i' ! j'"
  using nth_assigned[OF assms(1-3)] assms(4) by auto

lemma valid_grid_cell:
  assumes "valid_grid s board" and "in_grid s (i, j)"
  shows "0 \<le> board ! i ! j" and "board ! i ! j \<le> int (size_n s)"
    and "board ! i ! j \<noteq> 0 \<Longrightarrow> \<not> occurs_elsewhere s board i j (board ! i ! j)"
  using assms by (auto simp: valid_grid_def faulty_def out_of_range_def in_conflict_def)

lemma valid_gridI:
  assumes "well_formed s board"
    and "\<And>i j. in_grid s (i, j) \<Longrightarrow> 0 \<le> board ! i ! j \<and> board ! i ! j \<le> int (size_n s)"
    and "\<And>i j. in_grid s (i, j) \<Longrightarrow> board ! i ! j \<noteq> 0 \<Longrightarrow>
            \<not> occurs_elsewhere s board i j (board ! i ! j)"
  shows "valid_grid s board"
  using assms by (auto simp: valid_grid_def faulty_def out_of_range_def in_conflict_def)

lemma valid_assigned:
  assumes v: "valid_grid s board" and g: "in_grid s (row, col)"
    and lo: "1 \<le> num" and hi: "num \<le> int (size_n s)"
    and no: "\<not> occurs_elsewhere s board row col num"
  shows "valid_grid s (assigned board row col num)"
proof (rule valid_gridI)
  let ?b = "assigned board row col num"
  from v have wf: "well_formed s board" by (simp add: valid_grid_def)
  show "well_formed s ?b" by (rule well_formed_assigned[OF wf])
  note same = nth_assigned_same[OF wf g, of num]
  note other = nth_assigned_other[OF wf g, of _ _ num]
  show "0 \<le> ?b ! i ! j \<and> ?b ! i ! j \<le> int (size_n s)" if gi: "in_grid s (i, j)" for i j
  proof (cases "(i, j) = (row, col)")
    case True
    with same lo hi show ?thesis by simp
  next
    case False
    with other[OF gi] valid_grid_cell(1,2)[OF v gi] show ?thesis by simp
  qed
  show "\<not> occurs_elsewhere s ?b i j (?b ! i ! j)"
    if gi: "in_grid s (i, j)" and nz: "?b ! i ! j \<noteq> 0" for i j
  proof
    assume "occurs_elsewhere s ?b i j (?b ! i ! j)"
    then obtain i' j' where b: "i' < size_n s" "j' < size_n s" and ne: "(i', j') \<noteq> (i, j)"
      and rel: "i' = i \<or> j' = j \<or> same_box s (i', j') (i, j)"
      and eq: "?b ! i' ! j' = ?b ! i ! j"
      unfolding occurs_elsewhere_def by blast
    from b have g': "in_grid s (i', j')" by (simp add: in_grid_def)
    from gi have bi: "i < size_n s" "j < size_n s" by (simp_all add: in_grid_def)
    show False
    proof (cases "(i, j) = (row, col)")
      case True
      with ne have "(i', j') \<noteq> (row, col)" by simp
      with other[OF g'] same True eq have "board ! i' ! j' = num" by simp
      with b ne rel True have "occurs_elsewhere s board row col num"
        unfolding occurs_elsewhere_def by blast
      with no show False by simp
    next
      case False
      with other[OF gi] have w: "?b ! i ! j = board ! i ! j" by simp
      show False
      proof (cases "(i', j') = (row, col)")
        case True
        with same eq w have "board ! i ! j = num" by simp
        moreover from rel True have "i = row \<or> j = col \<or> same_box s (i, j) (row, col)"
          using same_box_sym[of s "(i', j')" "(i, j)"] by auto
        ultimately have "occurs_elsewhere s board row col num"
          using bi False unfolding occurs_elsewhere_def by blast
        with no show False by simp
      next
        case F2: False
        with other[OF g'] eq w have "board ! i' ! j' = board ! i ! j" by simp
        with b ne rel have "occurs_elsewhere s board i j (board ! i ! j)"
          unfolding occurs_elsewhere_def by blast
        with valid_grid_cell(3)[OF v gi] nz w show False by simp
      qed
    qed
  qed
qed

lemma solution_self: "valid_grid s board \<Longrightarrow> complete s board \<Longrightarrow> solution s board board"
  by (simp add: solution_def extends_def)

lemma solution_of_assigned:
  assumes wf: "well_formed s board" and g: "in_grid s (row, col)"
    and e: "empty_at board (row, col)"
    and sol: "solution s (assigned board row col num) full"
  shows "solution s board full"
proof -
  have "full ! fst p ! snd p = board ! fst p ! snd p"
    if p: "in_grid s p" and ne: "\<not> empty_at board p" for p
  proof -
    from ne e have "p \<noteq> (row, col)" by auto
    with empty_at_assigned[OF wf g p, of num] ne
    have "\<not> empty_at (assigned board row col num) p" by simp
    with sol p have "full ! fst p ! snd p = assigned board row col num ! fst p ! snd p"
      by (simp add: solution_def extends_def)
    also have "\<dots> = board ! fst p ! snd p"
      using nth_assigned_other[OF wf g, of "fst p" "snd p" num] p \<open>p \<noteq> (row, col)\<close>
      by simp
    finally show ?thesis .
  qed
  with sol show ?thesis by (simp add: solution_def extends_def)
qed

lemma solution_to_assigned:
  assumes v: "valid_grid s board" and g: "in_grid s (row, col)"
    and e: "empty_at board (row, col)"
    and sol: "solution s board full"
  shows "1 \<le> full ! row ! col" and "full ! row ! col \<le> int (size_n s)"
    and "\<not> occurs_elsewhere s board row col (full ! row ! col)"
    and "solution s (assigned board row col (full ! row ! col)) full"
proof -
  let ?num = "full ! row ! col"
  from v have wf: "well_formed s board" by (simp add: valid_grid_def)
  from sol have vf: "valid_grid s full" and cf: "complete s full" and ex: "extends s board full"
    by (simp_all add: solution_def)
  from cf g have nz: "?num \<noteq> 0" by (auto simp: complete_def empty_at_def)
  with valid_grid_cell(1)[OF vf g] show "1 \<le> ?num" by simp
  show "?num \<le> int (size_n s)" by (rule valid_grid_cell(2)[OF vf g])
  show "\<not> occurs_elsewhere s board row col ?num"
  proof
    assume "occurs_elsewhere s board row col ?num"
    then obtain i j where b: "i < size_n s" "j < size_n s" and ne: "(i, j) \<noteq> (row, col)"
      and rel: "i = row \<or> j = col \<or> same_box s (i, j) (row, col)"
      and eq: "board ! i ! j = ?num"
      unfolding occurs_elsewhere_def by blast
    from b have gi: "in_grid s (i, j)" by (simp add: in_grid_def)
    from eq nz have "\<not> empty_at board (i, j)" by (simp add: empty_at_def)
    with ex gi have "full ! i ! j = board ! i ! j" by (auto simp: extends_def)
    with eq b ne rel have "occurs_elsewhere s full row col ?num"
      unfolding occurs_elsewhere_def by metis
    with valid_grid_cell(3)[OF vf g] nz show False by simp
  qed
  have "full ! fst p ! snd p = assigned board row col ?num ! fst p ! snd p"
    if p: "in_grid s p" and ne: "\<not> empty_at (assigned board row col ?num) p" for p
  proof (cases "p = (row, col)")
    case True
    with nth_assigned_same[OF wf g, of ?num] show ?thesis by simp
  next
    case False
    with empty_at_assigned[OF wf g p, of ?num] ne have "\<not> empty_at board p" by simp
    with ex p have "full ! fst p ! snd p = board ! fst p ! snd p" by (simp add: extends_def)
    also have "\<dots> = assigned board row col ?num ! fst p ! snd p"
      using nth_assigned_other[OF wf g, of "fst p" "snd p" ?num] p False
      by simp
    finally show ?thesis .
  qed
  with vf cf show "solution s (assigned board row col ?num) full"
    by (simp add: solution_def extends_def)
qed

lemma solvable_step:
  assumes v: "valid_grid s board" and g: "in_grid s (row, col)"
    and e: "empty_at board (row, col)"
  shows "solvable s board \<longleftrightarrow>
     (\<exists>num. 1 \<le> num \<and> num \<le> int (size_n s) \<and> \<not> occurs_elsewhere s board row col num \<and>
            solvable s (assigned board row col num))"
proof
  assume "solvable s board"
  then obtain full where "solution s board full" by (auto simp: solvable_def)
  from solution_to_assigned[OF v g e this]
  show "\<exists>num. 1 \<le> num \<and> num \<le> int (size_n s) \<and> \<not> occurs_elsewhere s board row col num \<and>
            solvable s (assigned board row col num)"
    unfolding solvable_def by blast
next
  from v have wf: "well_formed s board" by (simp add: valid_grid_def)
  assume "\<exists>num. 1 \<le> num \<and> num \<le> int (size_n s) \<and> \<not> occurs_elsewhere s board row col num \<and>
            solvable s (assigned board row col num)"
  then obtain num full where "solution s (assigned board row col num) full"
    by (auto simp: solvable_def)
  from solution_of_assigned[OF wf g e this] show "solvable s board"
    by (auto simp: solvable_def)
qed

lemma try_values_decides:
  assumes sq: "square_config s" and rec: "decides recurse s k"
    and v: "valid_grid s board" and g: "in_grid s (row, col)"
    and e: "empty_at board (row, col)"
    and c: "card (empty_cells s board) \<le> Suc k"
  shows "\<forall>num \<in> set nums. 1 \<le> num \<and> num \<le> int (size_n s) \<Longrightarrow> same_config s s1 \<Longrightarrow>
     \<exists>s2 board'. try_values recurse s1 board row col nums
                     = Some (Inr (s2, board', \<exists>num \<in> set nums. promising s board row col num)) \<and>
        same_config s s2 \<and> time_limit_exceeded s2 = time_limit_exceeded s1 \<and>
        (if \<exists>num \<in> set nums. promising s board row col num
         then solution s board board' else board' = board)"
proof (induction nums arbitrary: s1)
  case Nil
  then show ?case by simp
next
  case (Cons num nums)
  from v have wf: "well_formed s board" by (simp add: valid_grid_def)
  from g have ij: "row < size_n s" "col < size_n s" by (simp_all add: in_grid_def)
  from Cons.prems(1) have lo: "1 \<le> num" and hi: "num \<le> int (size_n s)"
    and rest: "\<forall>num \<in> set nums. 1 \<le> num \<and> num \<le> int (size_n s)" by simp_all
  note cfg = Cons.prems(2)
  have iv: "is_valid s1 board row col num = Inr (\<not> occurs_elsewhere s board row col num)"
    by (simp add: config_is_valid[OF cfg] is_valid_eq[OF sq wf ij])
  have cl: "cell board row col = Inr 0"
    using cell_well_formed[OF wf ij] e by (simp add: empty_at_def)
  note sc = set_cell_after_cell[OF cl, of num]
  let ?b1 = "assigned board row col num"
  show ?case
  proof (cases "occurs_elsewhere s board row col num")
    case True
    then have step: "try_values recurse s1 board row col (num # nums)
                       = try_values recurse s1 board row col nums"
      by (simp add: iv)
    from True have "\<not> promising s board row col num" by (simp add: promising_def)
    then have R: "(\<exists>x \<in> set (num # nums). promising s board row col x)
                   \<longleftrightarrow> (\<exists>x \<in> set nums. promising s board row col x)" by simp
    from Cons.IH[OF rest cfg] show ?thesis unfolding step R .
  next
    case False
    have v1: "valid_grid s ?b1" by (rule valid_assigned[OF v g lo hi False])
    from lo have "num \<noteq> 0" by simp
    from card_empty_cells_assigned[OF wf g e this c]
    have c1: "card (empty_cells s ?b1) \<le> k" .
    from rec cfg v1 c1 obtain s2 b2
      where r: "recurse s1 ?b1 = Some (Inr (s2, b2, solvable s ?b1))"
        and cfg2: "same_config s s2"
        and tle2: "time_limit_exceeded s2 = time_limit_exceeded s1"
        and res: "if solvable s ?b1 then solution s ?b1 b2 else b2 = ?b1"
      unfolding decides_def by blast
    show ?thesis
    proof (cases "solvable s ?b1")
      case True
      then have step: "try_values recurse s1 board row col (num # nums)
                         = Some (Inr (s2, b2, True))"
        using False by (simp add: iv sc(1) r)
      from True False have p: "promising s board row col num" by (simp add: promising_def)
      from True res have "solution s ?b1 b2" by simp
      then have "solution s board b2" by (rule solution_of_assigned[OF wf g e])
      with p cfg2 tle2 show ?thesis unfolding step by auto
    next
      case nosol: False
      with res have b2: "b2 = ?b1" by simp
      have step: "try_values recurse s1 board row col (num # nums)
                         = try_values recurse s2 board row col nums"
        using False nosol by (simp add: iv sc r b2)
      from nosol have "\<not> promising s board row col num" by (simp add: promising_def)
      then have R: "(\<exists>x \<in> set (num # nums). promising s board row col x)
                   \<longleftrightarrow> (\<exists>x \<in> set nums. promising s board row col x)" by simp
      from Cons.IH[OF rest cfg2] tle2 show ?thesis unfolding step R by auto
    qed
  qed
qed

lemma promising_iff_solvable:
  assumes v: "valid_grid s board" and g: "in_grid s (row, col)"
    and e: "empty_at board (row, col)"
  shows "(\<exists>num \<in> set (value_range s). promising s board row col num) \<longleftrightarrow> solvable s board"
    and "(\<exists>num \<in> set (candidates s board (row, col)). promising s board row col num)
           \<longleftrightarrow> solvable s board"
proof -
  show "(\<exists>num \<in> set (value_range s). promising s board row col num) \<longleftrightarrow> solvable s board"
    unfolding solvable_step[OF v g e] set_value_range promising_def by blast
  show "(\<exists>num \<in> set (candidates s board (row, col)). promising s board row col num)
           \<longleftrightarrow> solvable s board"
    unfolding solvable_step[OF v g e] candidates_props(3) promising_def by auto
qed

lemma solve_simple_body:
  assumes sq: "square_config s" and clock: "\<forall>k. \<not> expired k"
    and cfg: "same_config s s1" and v: "valid_grid s board"
    and rec: "\<not> complete s board \<Longrightarrow>
                decides (solve_simple fuel expired) s k \<and> card (empty_cells s board) \<le> Suc k"
  shows "\<exists>s2 board'. solve_simple (Suc fuel) expired s1 board
                        = Some (Inr (s2, board', solvable s board)) \<and>
           same_config s s2 \<and> time_limit_exceeded s2 = time_limit_exceeded s1 \<and>
           (if solvable s board then solution s board board' else board' = board)"
proof -
  define s1' where "s1' = s1\<lparr>clock_reads := Suc (clock_reads s1),
                              recursive_calls := Suc (recursive_calls s1)\<rparr>"
  have cfg': "same_config s s1'" unfolding s1'_def by (rule same_config_tick[OF cfg])
  have tle': "time_limit_exceeded s1' = time_limit_exceeded s1" by (simp add: s1'_def)
  from v have wf: "well_formed s board" by (simp add: valid_grid_def)
  then have wf': "well_formed s1' board" by (simp add: config_well_formed[OF cfg'])
  have n: "size_n s1' = size_n s" using cfg' by (simp add: same_config_def)
  have fe: "find_empty s1' board = Inr (find (empty_at board) (all_cells (size_n s)))"
    using find_empty_eq[OF wf'] by (simp add: n)
  have unfold: "solve_simple (Suc fuel) expired s1 board =
      (case find_empty s1' board of
         Inl e \<Rightarrow> Some (Inl e)
       | Inr None \<Rightarrow> Some (Inr (s1', board, True))
       | Inr (Some (row, col)) \<Rightarrow>
           try_values (solve_simple fuel expired) s1' board row col (value_range s1'))"
    unfolding s1'_def using clock by (simp add: Let_def)
  show ?thesis
  proof (cases "find (empty_at board) (all_cells (size_n s))")
    case None
    then have "complete s board"
      by (simp add: find_all_cells_None complete_def in_grid_def)
    with v have sol: "solution s board board" by (rule solution_self)
    then have "solvable s board" by (auto simp: solvable_def)
    moreover have "solve_simple (Suc fuel) expired s1 board = Some (Inr (s1', board, True))"
      unfolding unfold fe None by simp
    ultimately show ?thesis using cfg' tle' sol by simp
  next
    case (Some q)
    obtain row col where q: "q = (row, col)" by (cases q)
    from Some have g: "in_grid s (row, col)" and e: "empty_at board (row, col)"
      by (simp_all add: find_all_cells_Some q in_grid_def)
    then have "\<not> complete s board" by (auto simp: complete_def)
    with rec have d: "decides (solve_simple fuel expired) s k"
      and c: "card (empty_cells s board) \<le> Suc k" by simp_all
    have nums: "\<forall>num \<in> set (value_range s). 1 \<le> num \<and> num \<le> int (size_n s)"
      by (simp add: set_value_range)
    have step: "solve_simple (Suc fuel) expired s1 board
        = try_values (solve_simple fuel expired) s1' board row col (value_range s)"
      unfolding unfold fe Some q by (simp add: config_value_range[OF cfg'])
    from try_values_decides[OF sq d v g e c nums cfg'] tle'
    show ?thesis
      unfolding step promising_iff_solvable(1)[OF v g e] by simp
  qed
qed

lemma solve_simple_decides:
  assumes "square_config s" and "\<forall>k. \<not> expired k"
  shows "decides (solve_simple (Suc k) expired) s k"
proof (induction k)
  case 0
  show ?case
    unfolding decides_def
  proof (intro allI impI)
    fix s1 board
    assume a: "same_config s s1 \<and> valid_grid s board \<and> card (empty_cells s board) \<le> 0"
    then have "complete s board" by (simp add: no_empty_cells)
    then show "\<exists>s2 board'. solve_simple (Suc 0) expired s1 board
                        = Some (Inr (s2, board', solvable s board)) \<and>
           same_config s s2 \<and> time_limit_exceeded s2 = time_limit_exceeded s1 \<and>
           (if solvable s board then solution s board board' else board' = board)"
      using solve_simple_body[OF assms, of s1 board 0 0] a by blast
  qed
next
  case (Suc k)
  show ?case
    unfolding decides_def
  proof (intro allI impI)
    fix s1 board
    assume a: "same_config s s1 \<and> valid_grid s board \<and> card (empty_cells s board) \<le> Suc k"
    with Suc.IH
    show "\<exists>s2 board'. solve_simple (Suc (Suc k)) expired s1 board
                        = Some (Inr (s2, board', solvable s board)) \<and>
           same_config s s2 \<and> time_limit_exceeded s2 = time_limit_exceeded s1 \<and>
           (if solvable s board then solution s board board' else board' = board)"
      using solve_simple_body[OF assms, of s1 board "Suc k" k] by blast
  qed
qed

lemma solve_with_mrv_body:
  assumes sq: "square_config s" and clock: "\<forall>k. \<not> expired k"
    and cfg: "same_config s s1" and v: "valid_grid s board"
    and rec: "\<not> complete s board \<Longrightarrow>
                decides (solve_with_mrv fuel expired) s k \<and> card (empty_cells s board) \<le> Suc k"
  shows "\<exists>s2 board'. solve_with_mrv (Suc fuel) expired s1 board
                        = Some (Inr (s2, board', solvable s board)) \<and>
           same_config s s2 \<and> time_limit_exceeded s2 = time_limit_exceeded s1 \<and>
           (if solvable s board then solution s board board' else board' = board)"
proof -
  define s1' where "s1' = s1\<lparr>clock_reads := Suc (clock_reads s1),
                              recursive_calls := Suc (recursive_calls s1)\<rparr>"
  have cfg': "same_config s s1'" unfolding s1'_def by (rule same_config_tick[OF cfg])
  have tle': "time_limit_exceeded s1' = time_limit_exceeded s1" by (simp add: s1'_def)
  from v have wf: "well_formed s board" by (simp add: valid_grid_def)
  then have wf': "well_formed s1' board" by (simp add: config_well_formed[OF cfg'])
  have sq': "square_config s1'" using sq by (simp add: config_square[OF cfg'])
  have unfold: "solve_with_mrv (Suc fuel) expired s1 board =
      (case find_best_empty s1' board of
         Inl e \<Rightarrow> Some (Inl e)
       | Inr None \<Rightarrow> Some (Inr (s1', board, True))
       | Inr (Some (row, col, possible_values)) \<Rightarrow>
           try_values (solve_with_mrv fuel expired) s1' board row col possible_values)"
    unfolding s1'_def using clock by (simp add: Let_def)
  from find_best_empty_spec[OF sq' wf']
  consider (none) "find_best_empty s1' board = Inr None"
      "\<forall>p. in_grid s p \<longrightarrow> \<not> empty_at board p"
    | (some) q where "find_best_empty s1' board = Inr (Some (fst q, snd q, candidates s board q))"
      "in_grid s q" "empty_at board q"
    unfolding config_in_grid[OF cfg'] config_candidates[OF cfg'] by blast
  then show ?thesis
  proof cases
    case none
    then have "complete s board" by (simp add: complete_def)
    with v have sol: "solution s board board" by (rule solution_self)
    then have "solvable s board" by (auto simp: solvable_def)
    moreover have "solve_with_mrv (Suc fuel) expired s1 board = Some (Inr (s1', board, True))"
      unfolding unfold none(1) by simp
    ultimately show ?thesis using cfg' tle' sol by simp
  next
    case some
    obtain row col where q: "q = (row, col)" by (cases q)
    from some(2,3) have g: "in_grid s (row, col)" and e: "empty_at board (row, col)"
      by (simp_all add: q)
    then have "\<not> complete s board" by (auto simp: complete_def)
    with rec have d: "decides (solve_with_mrv fuel expired) s k"
      and c: "card (empty_cells s board) \<le> Suc k" by simp_all
    have nums: "\<forall>num \<in> set (candidates s board (row, col)). 1 \<le> num \<and> num \<le> int (size_n s)"
      by (simp add: candidates_props(3))
    have step: "solve_with_mrv (Suc fuel) expired s1 board
        = try_values (solve_with_mrv fuel expired) s1' board row col
            (candidates s board (row, col))"
      unfolding unfold some(1) by (simp add: q)
    from try_values_decides[OF sq d v g e c nums cfg'] tle'
    show ?thesis
      unfolding step promising_iff_solvable(2)[OF v g e] by simp
  qed
qed

lemma solve_with_mrv_decides:
  assumes "square_config s" and "\<forall>k. \<not> expired k"
  shows "decides (solve_with_mrv (Suc k) expired) s k"
proof (induction k)
  case 0
  show ?case
    unfolding decides_def
  proof (intro allI impI)
    fix s1 board
    assume a: "same_config s s1 \<and> valid_grid s board \<and> card (empty_cells s board) \<le> 0"
    then have "complete s board" by (simp add: no_empty_cells)
    then show "\<exists>s2 board'. solve_with_mrv (Suc 0) expired s1 board
                        = Some (Inr (s2, board', solvable s board)) \<and>
           same_config s s2 \<and> time_limit_exceeded s2 = time_limit_exceeded s1 \<and>
           (if solvable s board then solution s board board' else board' = board)"
      using solve_with_mrv_body[OF assms, of s1 board 0 0] a by blast
  qed
next
  case (Suc k)
  show ?case
    unfolding decides_def
  proof (intro allI impI)
    fix s1 board
    assume a: "same_config s s1 \<and> valid_grid s board \<and> card (empty_cells s board) \<le> Suc k"
    with Suc.IH
    show "\<exists>s2 board'. solve_with_mrv (Suc (Suc k)) expired s1 board
                        = Some (Inr (s2, board', solvable s board)) \<and>
           same_config s s2 \<and> time_limit_exceeded s2 = time_limit_exceeded s1 \<and>
           (if solvable s board then solution s board board' else board' = board)"
      using solve_with_mrv_body[OF assms, of s1 board "Suc k" k] by blast
  qed
qed

lemma config_valid_grid: "same_config s s1 \<Longrightarrow> valid_grid s1 board = valid_grid s board"
  by (simp add: valid_grid_def faulty_def out_of_range_def in_conflict_def
      config_well_formed config_in_grid config_occurs)
    (simp add: same_config_def)

lemma well_formed_ext:
  assumes a: "well_formed s a" and b: "well_formed s b"
    and eq: "\<And>i j. i < size_n s \<Longrightarrow> j < size_n s \<Longrightarrow> a ! i ! j = b ! i ! j"
  shows "a = b"
proof (rule nth_equalityI)
  from a b show "length a = length b" by (simp add: well_formed_def)
  fix i assume i: "i < length a"
  with a have i': "i < size_n s" by (simp add: well_formed_def)
  from a b i' have la: "length (a ! i) = size_n s" and lb: "length (b ! i) = size_n s"
    by (simp_all add: well_formed_def list_all_length)
  show "a ! i = b ! i"
  proof (rule nth_equalityI)
    show "length (a ! i) = length (b ! i)" using la lb by simp
    fix j assume "j < length (a ! i)"
    with la have "j < size_n s" by simp
    with i' show "a ! i ! j = b ! i ! j" by (rule eq)
  qed
qed

lemma copy_back_cells:
  assumes wfc: "well_formed s board_copy"
  shows "well_formed s board \<Longrightarrow> \<forall>p \<in> set cells. in_grid s p \<Longrightarrow>
     \<exists>b'. copy_back board board_copy cells = Inr b' \<and> well_formed s b' \<and>
       (\<forall>i j. in_grid s (i, j) \<longrightarrow>
          b' ! i ! j = (if (i, j) \<in> set cells then board_copy ! i ! j else board ! i ! j))"
proof (induction cells arbitrary: board)
  case Nil
  then show ?case by simp
next
  case (Cons p cells)
  obtain i j where p: "p = (i, j)" by (cases p)
  from Cons.prems have g: "in_grid s (i, j)" and rest: "\<forall>p \<in> set cells. in_grid s p"
    by (simp_all add: p)
  then have ij: "i < size_n s" "j < size_n s" by (simp_all add: in_grid_def)
  note wf = Cons.prems(1)
  define v where "v = board_copy ! i ! j"
  have c: "cell board_copy i j = Inr v"
    using cell_well_formed[OF wfc ij] by (simp add: v_def)
  have "cell board i j = Inr (board ! i ! j)" by (rule cell_well_formed[OF wf ij])
  from set_cell_after_cell(1)[OF this, of v]
  have sc: "set_cell board i j v = Inr (assigned board i j v)" .
  have step: "copy_back board board_copy (p # cells)
                = copy_back (assigned board i j v) board_copy cells"
    by (simp add: p c sc)
  from Cons.IH[OF well_formed_assigned[OF wf] rest, of i j v]
  obtain b' where r: "copy_back (assigned board i j v) board_copy cells = Inr b'"
    and wf': "well_formed s b'"
    and at: "\<forall>i' j'. in_grid s (i', j') \<longrightarrow>
          b' ! i' ! j' = (if (i', j') \<in> set cells then board_copy ! i' ! j'
                          else assigned board i j v ! i' ! j')" by blast
  have "b' ! i' ! j' = (if (i', j') \<in> set (p # cells) then board_copy ! i' ! j'
                        else board ! i' ! j')" if g': "in_grid s (i', j')" for i' j'
  proof (cases "(i', j') \<in> set cells")
    case True
    with at g' show ?thesis by simp
  next
    case False
    with at g' have b: "b' ! i' ! j' = assigned board i j v ! i' ! j'" by simp
    show ?thesis
    proof (cases "(i', j') = (i, j)")
      case True
      with b nth_assigned_same[OF wf g, of v] show ?thesis by (simp add: p v_def)
    next
      case F2: False
      with b nth_assigned_other[OF wf g g', of v] False show ?thesis by (auto simp: p)
    qed
  qed
  with r wf' show ?case unfolding step by blast
qed

lemma copy_back_all:
  assumes "well_formed s board" and "well_formed s board_copy"
  shows "copy_back board board_copy (all_cells (size_n s)) = Inr board_copy"
proof -
  have "\<forall>p \<in> set (all_cells (size_n s)). in_grid s p"
    by (simp add: set_all_cells in_grid_def)
  from copy_back_cells[OF assms(2,1) this]
  obtain b' where r: "copy_back board board_copy (all_cells (size_n s)) = Inr b'"
    and wf': "well_formed s b'"
    and at: "\<forall>i j. in_grid s (i, j) \<longrightarrow>
          b' ! i ! j = (if (i, j) \<in> set (all_cells (size_n s)) then board_copy ! i ! j
                        else board ! i ! j)" by blast
  have "b' = board_copy"
  proof (rule well_formed_ext[OF wf' assms(2)])
    fix i j assume "i < size_n s" "j < size_n s"
    then show "b' ! i ! j = board_copy ! i ! j"
      using at by (simp add: in_grid_def set_all_cells)
  qed
  with r show ?thesis by simp
qed

lemma solvers_decide:
  assumes sq: "square_config s" and clock: "\<forall>k. \<not> expired k"
    and cfg: "same_config s s1" and v: "valid_grid s board"
    and fuel: "size_n s * size_n s < fuel"
  shows "\<exists>s2 board'. solve_simple fuel expired s1 board
                        = Some (Inr (s2, board', solvable s board)) \<and>
           same_config s s2 \<and> time_limit_exceeded s2 = time_limit_exceeded s1 \<and>
           (if solvable s board then solution s board board' else board' = board)"
    and "\<exists>s2 board'. solve_with_mrv fuel expired s1 board
                        = Some (Inr (s2, board', solvable s board)) \<and>
           same_config s s2 \<and> time_limit_exceeded s2 = time_limit_exceeded s1 \<and>
           (if solvable s board then solution s board board' else board' = board)"
proof -
  from fuel obtain k where k: "fuel = Suc k" by (cases fuel) auto
  with fuel card_empty_cells_le[of s board] have c: "card (empty_cells s board) \<le> k" by simp
  from solve_simple_decides[OF sq clock, of k] cfg v c
  show "\<exists>s2 board'. solve_simple fuel expired s1 board
                        = Some (Inr (s2, board', solvable s board)) \<and>
           same_config s s2 \<and> time_limit_exceeded s2 = time_limit_exceeded s1 \<and>
           (if solvable s board then solution s board board' else board' = board)"
    unfolding decides_def k by blast
  from solve_with_mrv_decides[OF sq clock, of k] cfg v c
  show "\<exists>s2 board'. solve_with_mrv fuel expired s1 board
                        = Some (Inr (s2, board', solvable s board)) \<and>
           same_config s s2 \<and> time_limit_exceeded s2 = time_limit_exceeded s1 \<and>
           (if solvable s board then solution s board board' else board' = board)"
    unfolding decides_def k by blast
qed

lemma measure_performance_decides:
  assumes sq: "square_config s" and clock: "\<forall>k. \<not> expired k"
    and v: "valid_grid s board" and fuel: "size_n s * size_n s < fuel"
  shows "\<exists>s2 board'. measure_performance fuel expired s board use_mrv
                        = Some (Inr (s2, board', solvable s board, recursive_calls s2)) \<and>
           \<not> time_limit_exceeded s2 \<and>
           (if solvable s board then solution s board board' else board' = board)"
proof -
  define s0 where "s0 = s\<lparr>recursive_calls := 0, time_limit_exceeded := False\<rparr>"
  have cfg: "same_config s s0" by (simp add: s0_def same_config_def)
  have tle0: "\<not> time_limit_exceeded s0" by (simp add: s0_def)
  from v have wf: "well_formed s board" by (simp add: valid_grid_def)
  have "valid_grid s0 board" using v by (simp add: config_valid_grid[OF cfg])
  moreover have "square_config s0" using sq by (simp add: config_square[OF cfg])
  ultimately have val: "validate_board s0 board = Inr (board, True, Valid_board)"
    by (simp add: validate_board_valid_iff)
  from solvers_decide[OF sq clock cfg v fuel]
  obtain s2 b2 where r: "(if use_mrv then solve_with_mrv fuel expired s0 board
                  else solve_simple fuel expired s0 board)
                    = Some (Inr (s2, b2, solvable s board))"
    and cfg2: "same_config s s2"
    and tle2: "time_limit_exceeded s2 = time_limit_exceeded s0"
    and res: "if solvable s board then solution s board b2 else b2 = board"
    by (cases use_mrv) auto
  have n2: "size_n s2 = size_n s" using cfg2 by (simp add: same_config_def)
  show ?thesis
  proof (cases "solvable s board")
    case True
    with res have sol: "solution s board b2" by simp
    then have "well_formed s b2" by (simp add: solution_def valid_grid_def)
    from copy_back_all[OF wf this]
    have cb: "copy_back board b2 (all_cells (size_n s2)) = Inr b2" by (simp add: n2)
    have "measure_performance fuel expired s board use_mrv
            = Some (Inr (s2, b2, True, recursive_calls s2))"
      unfolding measure_performance_def s0_def[symmetric] Let_def val
      using r True cb by simp
    with True sol tle2 tle0 show ?thesis by auto
  next
    case False
    with res have "b2 = board" by simp
    have "measure_performance fuel expired s board use_mrv
            = Some (Inr (s2, board, False, recursive_calls s2))"
      unfolding measure_performance_def s0_def[symmetric] Let_def val
      using r False by simp
    with False tle2 tle0 show ?thesis by auto
  qed
qed

lemma complete_by_scan:
  "complete s board \<longleftrightarrow> list_all (\<lambda>p. \<not> empty_at board p) (all_cells (size_n s))"
  unfolding complete_def list_all_iff Ball_def set_all_cells in_grid_def by blast

lemma extends_by_scan:
  "extends s board full \<longleftrightarrow>
     list_all (\<lambda>p. empty_at board p \<or> full ! fst p ! snd p = board ! fst p ! snd p)
       (all_cells (size_n s))"
  unfolding extends_def list_all_iff Ball_def set_all_cells in_grid_def by blast

lemma solved_cells:
  assumes sq: "square_config s" and sol: "solution s board full"
    and i: "i < size_n s" and j: "j < size_n s"
  shows "1 \<le> full ! i ! j" and "full ! i ! j \<le> int (size_n s)"
    and "is_valid s full i j (full ! i ! j) = Inr True"
proof -
  from sol have v: "valid_grid s full" and c: "complete s full" by (simp_all add: solution_def)
  from i j have g: "in_grid s (i, j)" by (simp add: in_grid_def)
  from c g have nz: "full ! i ! j \<noteq> 0" by (auto simp: complete_def empty_at_def)
  with valid_grid_cell(1)[OF v g] show "1 \<le> full ! i ! j" by simp
  show "full ! i ! j \<le> int (size_n s)" by (rule valid_grid_cell(2)[OF v g])
  from v have wf: "well_formed s full" by (simp add: valid_grid_def)
  show "is_valid s full i j (full ! i ! j) = Inr True"
    using is_valid_eq[OF sq wf i j] valid_grid_cell(3)[OF v g nz] by simp
qed

text \<open>
  Claim C1. Take a solver whose box size squares to its size, a board that
  \<open>validate_board\<close> accepts and that has a solution, a clock that never passes the
  deadline, and fuel above the number of cells. Then \<open>measure_performance\<close>, with
  either strategy, returns \<open>True\<close>; the board it hands back keeps the given cells, every
  cell of it holds a value of \<open>1..N\<close> that \<open>is_valid\<close> accepts at that cell, and
  \<open>validate_board\<close> accepts it.
\<close>

theorem solvable_board_is_solved:
  assumes "square_config s"
    and "validate_board s board = Inr (board, True, Valid_board)"
    and "solvable s board"
    and "\<forall>k. \<not> expired k"
    and "size_n s * size_n s < fuel"
  shows "\<exists>s' board'.
           measure_performance fuel expired s board use_mrv
             = Some (Inr (s', board', True, recursive_calls s')) \<and>
           \<not> time_limit_exceeded s' \<and>
           extends s board board' \<and>
           (\<forall>i j. i < size_n s \<and> j < size_n s \<longrightarrow>
               1 \<le> board' ! i ! j \<and> board' ! i ! j \<le> int (size_n s) \<and>
               is_valid s board' i j (board' ! i ! j) = Inr True) \<and>
           validate_board s board' = Inr (board', True, Valid_board)"
proof -
  from assms(1,2) have v: "valid_grid s board" by (simp add: validate_board_valid_iff)
  from measure_performance_decides[OF assms(1,4) v assms(5), of use_mrv] assms(3)
  obtain s' board' where r: "measure_performance fuel expired s board use_mrv
             = Some (Inr (s', board', True, recursive_calls s'))"
    and t: "\<not> time_limit_exceeded s'" and sol: "solution s board board'" by auto
  from sol have "extends s board board'" and "valid_grid s board'"
    by (simp_all add: solution_def)
  moreover from \<open>valid_grid s board'\<close>
  have "validate_board s board' = Inr (board', True, Valid_board)"
    by (simp add: validate_board_valid_iff[OF assms(1)])
  moreover note solved_cells[OF assms(1) sol]
  ultimately show ?thesis using r t by blast
qed

theorem solvable_board_is_solved_witness:
  "measure_performance 17 never_expired solver4 board4 True =
     Some (Inr (solver4\<lparr>recursive_calls := 13, clock_reads := 13\<rparr>, solved4, True, 13)) \<and>
   measure_performance 17 never_expired solver4 board4 False =
     Some (Inr (solver4\<lparr>recursive_calls := 16, clock_reads := 16\<rparr>, solved4, True, 16)) \<and>
   validate_board solver4 solved4 = Inr (solved4, True, Valid_board)"
proof -
  have sq: "square_config solver4" by (simp add: square_config_def solver4_def)
  have val: "validate_board solver4 board4 = Inr (board4, True, Valid_board)" by code_simp
  have "validate_board solver4 solved4 = Inr (solved4, True, Valid_board)" by code_simp
  then have "valid_grid solver4 solved4" by (simp add: validate_board_valid_iff[OF sq])
  moreover have "complete solver4 solved4" unfolding complete_by_scan by code_simp
  moreover have "extends solver4 board4 solved4" unfolding extends_by_scan by code_simp
  ultimately have sv: "solvable solver4 board4"
    unfolding solvable_def solution_def by blast
  have clock: "\<forall>k. \<not> never_expired k" by (simp add: never_expired_def)
  have fuel: "size_n solver4 * size_n solver4 < 17" by (simp add: solver4_def)
  have a: "measure_performance 17 never_expired solver4 board4 True =
     Some (Inr (solver4\<lparr>recursive_calls := 13, clock_reads := 13\<rparr>, solved4, True, 13))"
    by code_simp
  have b: "measure_performance 17 never_expired solver4 board4 False =
     Some (Inr (solver4\<lparr>recursive_calls := 16, clock_reads := 16\<rparr>, solved4, True, 16))"
    by code_simp
  from solvable_board_is_solved[OF sq val sv clock fuel, of True] a b
  show ?thesis by auto
qed

text \<open>
  Claim C8. Take a solver whose box size squares to its size, a board that
  \<open>validate_board\<close> accepts, a clock that never passes the deadline, and fuel above the
  number of cells. Then \<open>solve_with_mrv\<close> and \<open>solve_simple\<close> both return, with the same
  flag: \<open>True\<close> when the board has a solution and \<open>False\<close> when it has none, and
  neither sets \<open>time_limit_exceeded\<close>. The same holds for \<open>measure_performance\<close> with
  either strategy.
\<close>

theorem strategies_agree:
  assumes "square_config s"
    and "validate_board s board = Inr (board, True, Valid_board)"
    and "\<forall>k. \<not> expired k"
    and "size_n s * size_n s < fuel"
  shows "\<exists>s1 b1 s2 b2 s3 b3 s4 b4.
           solve_with_mrv fuel expired s board = Some (Inr (s1, b1, solvable s board)) \<and>
           solve_simple fuel expired s board = Some (Inr (s2, b2, solvable s board)) \<and>
           time_limit_exceeded s1 = time_limit_exceeded s \<and>
           time_limit_exceeded s2 = time_limit_exceeded s \<and>
           measure_performance fuel expired s board True
             = Some (Inr (s3, b3, solvable s board, recursive_calls s3)) \<and>
           measure_performance fuel expired s board False
             = Some (Inr (s4, b4, solvable s board, recursive_calls s4)) \<and>
           \<not> time_limit_exceeded s3 \<and> \<not> time_limit_exceeded s4"
proof -
  from assms(1,2) have v: "valid_grid s board" by (simp add: validate_board_valid_iff)
  note d = solvers_decide[OF assms(1,3) same_config_refl v assms(4)]
  from d(2) obtain s1 b1
    where 1: "solve_with_mrv fuel expired s board = Some (Inr (s1, b1, solvable s board))"
      "time_limit_exceeded s1 = time_limit_exceeded s" by blast
  from d(1) obtain s2 b2
    where 2: "solve_simple fuel expired s board = Some (Inr (s2, b2, solvable s board))"
      "time_limit_exceeded s2 = time_limit_exceeded s" by blast
  from measure_performance_decides[OF assms(1,3) v assms(4), of True] obtain s3 b3
    where 3: "measure_performance fuel expired s board True
             = Some (Inr (s3, b3, solvable s board, recursive_calls s3))"
      "\<not> time_limit_exceeded s3" by blast
  from measure_performance_decides[OF assms(1,3) v assms(4), of False] obtain s4 b4
    where 4: "measure_performance fuel expired s board False
             = Some (Inr (s4, b4, solvable s board, recursive_calls s4))"
      "\<not> time_limit_exceeded s4" by blast
  from 1 2 3 4 show ?thesis by blast
qed

theorem strategies_agree_witness:
  "solve_with_mrv 17 never_expired solver4 stuck4 =
     Some (Inr (solver4\<lparr>recursive_calls := 2, clock_reads := 2\<rparr>, stuck4, False)) \<and>
   solve_simple 17 never_expired solver4 stuck4 =
     Some (Inr (solver4\<lparr>recursive_calls := 2, clock_reads := 2\<rparr>, stuck4, False)) \<and>
   \<not> solvable solver4 stuck4"
proof -
  have sq: "square_config solver4" by (simp add: square_config_def solver4_def)
  have val: "validate_board solver4 stuck4 = Inr (stuck4, True, Valid_board)" by code_simp
  have clock: "\<forall>k. \<not> never_expired k" by (simp add: never_expired_def)
  have fuel: "size_n solver4 * size_n solver4 < 17" by (simp add: solver4_def)
  have a: "solve_with_mrv 17 never_expired solver4 stuck4 =
     Some (Inr (solver4\<lparr>recursive_calls := 2, clock_reads := 2\<rparr>, stuck4, False))"
    by code_simp
  have b: "solve_simple 17 never_expired solver4 stuck4 =
     Some (Inr (solver4\<lparr>recursive_calls := 2, clock_reads := 2\<rparr>, stuck4, False))"
    by code_simp
  from strategies_agree[OF sq val clock fuel] a b
  show ?thesis by auto
qed

end
